theory Spec2Isabelle
  imports Main "HOL-Library.Word"
begin

section \<open>The timestamp tool \<open>ts\<close>: data model\<close>

text \<open>
  The embedding follows \<open>src/ts.c\<close>. A C string is the list of its bytes before the
  terminating NUL; a pointer argument that the code tests against \<open>NULL\<close> is an
  \<open>option\<close> (\<open>None\<close> is the null pointer); an out-parameter is a \<open>bool\<close> that says
  whether the pointer is non-null, and the value stored through it is returned in the
  \<open>Inr\<close> branch of the result, so an \<open>Inl\<close> never carries \<open>TS_SUCCESS\<close>. A function
  that writes into a caller's buffer returns its code together with the buffer.
  \<open>unsigned long\<close> is a 64-bit word and its conversion to \<open>time_t\<close> is the
  two's-complement reading of the word (the LP64 platforms of the build guide);
  arithmetic on \<open>long\<close> and \<open>time_t\<close> values is arithmetic on \<open>int\<close>, which is what C
  computes as long as the result is in range.
\<close>

datatype ts_error_t =
    TS_SUCCESS
  | TS_ERROR_INVALID_ARGUMENT
  | TS_ERROR_BUFFER_OVERFLOW
  | TS_ERROR_REGEX_COMPILE
  | TS_ERROR_REGEX_EXEC
  | TS_ERROR_TIME_PARSE
  | TS_ERROR_SYSTEM

record high_res_time_t =
  seconds :: int
  nanoseconds :: int

record timestamp_format_t =
  pattern :: string
  format :: "string option"
  name :: string

definition MAX_LINE_LENGTH :: nat where "MAX_LINE_LENGTH = 4096"
definition MAX_FORMAT_LENGTH :: nat where "MAX_FORMAT_LENGTH = 256"
definition MAX_TIMESTAMP_LENGTH :: nat where "MAX_TIMESTAMP_LENGTH = 128"
definition MAX_TIME_STR_LENGTH :: nat where "MAX_TIME_STR_LENGTH = 64"
definition SECONDS_PER_MINUTE :: int where "SECONDS_PER_MINUTE = 60"
definition SECONDS_PER_HOUR :: int where "SECONDS_PER_HOUR = 3600"
definition SECONDS_PER_DAY :: int where "SECONDS_PER_DAY = 86400"
definition NANOSECONDS_PER_SECOND :: int where "NANOSECONDS_PER_SECOND = 1000000000"
definition FUTURE_THRESHOLD_DAYS :: int where "FUTURE_THRESHOLD_DAYS = 30"

subsection \<open>The pattern table\<close>

text \<open>
  \<open>timestamp_formats\<close> of the source, without its \<open>{NULL, NULL, NULL}\<close> terminator:
  the loops of the source stop at the terminator, the recursions here at the end of
  the list. The backslash of the C literal \<open>"\\."\<close> is one byte of the pattern.
\<close>

definition timestamp_formats :: "timestamp_format_t list" where
  "timestamp_formats =
    [\<lparr>pattern = ''[A-Za-z]{3} [0-9]{1,2} [0-9]{2}:[0-9]{2}:[0-9]{2}'',
      format = Some ''%b %d %H:%M:%S'', name = ''syslog''\<rparr>,
     \<lparr>pattern = ''[0-9]{4}-[0-9]{2}-[0-9]{2}T[0-9]{2}:[0-9]{2}:[0-9]{2}'',
      format = Some ''%Y-%m-%dT%H:%M:%S'', name = ''ISO-8601''\<rparr>,
     \<lparr>pattern = ''[0-9]{1,2} [A-Za-z]{3} [0-9]{2} [0-9]{2}:[0-9]{2}:[0-9]{2}'',
      format = Some ''%d %b %y %H:%M:%S'', name = ''RFC''\<rparr>,
     \<lparr>pattern = ''[A-Za-z]{3} [A-Za-z]{3} [0-9]{2} [0-9]{2}:[0-9]{2}'',
      format = Some ''%a %b %d %H:%M'', name = ''lastlog''\<rparr>,
     \<lparr>pattern = ''[0-9]{2} [a-z]{3} [0-9]{2}:[0-9]{2}'',
      format = Some ''%d %b %H:%M'', name = ''short''\<rparr>,
     \<lparr>pattern = ''[0-9]{2} [a-z]{3}/[0-9]{2} [0-9]{2}:[0-9]{2}:[0-9]{2}'',
      format = Some ''%d %b/%y %H:%M:%S'', name = ''short_with_year''\<rparr>,
     \<lparr>pattern = ''[0-9]{10,}'' @ [CHR 0x5C] @ ''.[0-9]{1,9}'',
      format = None, name = ''unix_fractional''\<rparr>,
     \<lparr>pattern = ''[0-9]{10,}'',
      format = None, name = ''unix_plain''\<rparr>]"

section \<open>POSIX extended regular expressions, as far as the table uses them\<close>

text \<open>
  \<open>regcomp\<close> and \<open>regexec\<close> belong to the C library. They are modelled for the
  fragment of POSIX extended regular expressions that the table is written in: a
  pattern is a sequence of pieces, a piece is an atom (one of the bracket expressions
  \<open>[0-9]\<close>, \<open>[a-z]\<close>, \<open>[A-Za-z]\<close>, an escaped character or an ordinary character)
  with an optional interval \<open>{m}\<close>, \<open>{m,}\<close> or \<open>{m,n}\<close>. \<open>regcomp_ere\<close> answers
  \<open>None\<close> outside the fragment, which is where the source's loops skip the entry.
\<close>

datatype atom = Digit | Lower | Alpha | Lit char

type_synonym piece = "atom \<times> nat \<times> nat option"

text \<open>The code of a byte, and the ranges of the C locale.\<close>

definition byte :: "char \<Rightarrow> nat" where
  "byte c = of_char c"

definition isdigit :: "char \<Rightarrow> bool" where
  "isdigit c = (byte CHR ''0'' \<le> byte c \<and> byte c \<le> byte CHR ''9'')"

definition islower :: "char \<Rightarrow> bool" where
  "islower c = (byte CHR ''a'' \<le> byte c \<and> byte c \<le> byte CHR ''z'')"

definition isupper :: "char \<Rightarrow> bool" where
  "isupper c = (byte CHR ''A'' \<le> byte c \<and> byte c \<le> byte CHR ''Z'')"

fun accepts :: "atom \<Rightarrow> char \<Rightarrow> bool" where
  "accepts Digit c = isdigit c"
| "accepts Lower c = islower c"
| "accepts Alpha c = (isupper c \<or> islower c)"
| "accepts (Lit d) c = (c = d)"

definition digit_val :: "char \<Rightarrow> nat" where
  "digit_val c = byte c - byte CHR ''0''"

text \<open>The value of a run of decimal digits, most significant digit first.\<close>

definition digits_val :: "string \<Rightarrow> nat" where
  "digits_val ds = foldl (\<lambda>acc c. 10 * acc + digit_val c) 0 ds"

definition special :: "char \<Rightarrow> bool" where
  "special c = (c \<in> set ''[]{}()*+?|^$.'' \<or> c = CHR 0x5C)"

fun parse_atom :: "string \<Rightarrow> (atom \<times> string) option" where
  "parse_atom [] = None"
| "parse_atom (c # cs) =
     (if c = CHR ''['' then
        (if take 4 cs = ''0-9]'' then Some (Digit, drop 4 cs)
         else if take 4 cs = ''a-z]'' then Some (Lower, drop 4 cs)
         else if take 7 cs = ''A-Za-z]'' then Some (Alpha, drop 7 cs)
         else None)
      else if c = CHR 0x5C then
        (case cs of [] \<Rightarrow> None | d # ds \<Rightarrow> Some (Lit d, ds))
      else if special c then None
      else Some (Lit c, cs))"

text \<open>
  The interval after an atom: \<open>{m}\<close>, \<open>{m,}\<close>, \<open>{m,n}\<close>; no interval is one
  occurrence.
\<close>

definition parse_bound :: "string \<Rightarrow> ((nat \<times> nat option) \<times> string) option" where
  "parse_bound s =
     (case s of
        [] \<Rightarrow> Some ((1, Some 1), [])
      | c # cs \<Rightarrow>
          if c \<noteq> CHR ''{'' then Some ((1, Some 1), s)
          else
            (let lo = takeWhile isdigit cs; r1 = dropWhile isdigit cs in
             if lo = [] then None
             else
               (case r1 of
                  [] \<Rightarrow> None
                | d # r2 \<Rightarrow>
                    if d = CHR ''}'' then Some ((digits_val lo, Some (digits_val lo)), r2)
                    else if d \<noteq> CHR '','' then None
                    else
                      (let hi = takeWhile isdigit r2; r3 = dropWhile isdigit r2 in
                       (case r3 of
                          [] \<Rightarrow> None
                        | e # r4 \<Rightarrow>
                            if e \<noteq> CHR ''}'' then None
                            else if hi = [] then Some ((digits_val lo, None), r4)
                            else if digits_val hi < digits_val lo then None
                            else Some ((digits_val lo, Some (digits_val hi)), r4))))))"

text \<open>
  The fuel is the length of the pattern: every piece consumes at least one byte, so the
  fuel never runs out before the pattern does.
\<close>

fun regcomp_fuel :: "nat \<Rightarrow> string \<Rightarrow> piece list option" where
  "regcomp_fuel 0 s = (if s = [] then Some [] else None)"
| "regcomp_fuel (Suc n) s =
     (if s = [] then Some []
      else
        (case parse_atom s of
           None \<Rightarrow> None
         | Some (a, r) \<Rightarrow>
             (case parse_bound r of
                None \<Rightarrow> None
              | Some ((lo, hi), r') \<Rightarrow>
                  (case regcomp_fuel n r' of
                     None \<Rightarrow> None
                   | Some ps \<Rightarrow> Some ((a, lo, hi) # ps)))))"

definition regcomp_ere :: "string \<Rightarrow> piece list option" where
  "regcomp_ere s = regcomp_fuel (length s) s"

text \<open>
  All lengths of a match of the pieces at the start of the text: a piece with the
  interval \<open>{lo,hi}\<close> takes between \<open>lo\<close> and \<open>hi\<close> of the leading characters its
  atom accepts.
\<close>

fun match_lengths :: "piece list \<Rightarrow> string \<Rightarrow> nat list" where
  "match_lengths [] s = [0]"
| "match_lengths (p # ps) s =
     (let n = length (takeWhile (accepts (fst p)) s);
          m = (case snd (snd p) of None \<Rightarrow> n | Some h \<Rightarrow> min n h)
      in concat (map (\<lambda>k. map (\<lambda>l. k + l) (match_lengths ps (drop k s)))
                     [fst (snd p) ..< Suc m]))"

text \<open>
  \<open>regexec\<close> with one \<open>regmatch_t\<close> and no flags: the match that starts leftmost,
  and the longest of those that start there; \<open>(rm_so, rm_eo)\<close>. \<open>None\<close> is
  \<open>REG_NOMATCH\<close>.
\<close>

fun regexec_from :: "piece list \<Rightarrow> nat \<Rightarrow> string \<Rightarrow> (nat \<times> nat) option" where
  "regexec_from ps i [] =
     (case match_lengths ps [] of [] \<Rightarrow> None | l # ls \<Rightarrow> Some (i, i + fold max ls l))"
| "regexec_from ps i (c # cs) =
     (case match_lengths ps (c # cs) of
        [] \<Rightarrow> regexec_from ps (Suc i) cs
      | l # ls \<Rightarrow> Some (i, i + fold max ls l))"

definition regexec :: "piece list \<Rightarrow> string \<Rightarrow> (nat \<times> nat) option" where
  "regexec ps line = regexec_from ps 0 line"

section \<open>Locating the leftmost timestamp\<close>

text \<open>
  The loop of \<open>find_timestamp_match\<close>: \<open>best\<close> is \<open>(best_match_start,
  best_match_end)\<close>, \<open>None\<close> while \<open>best_match_start\<close> is \<open>-1\<close>. An entry whose
  pattern does not compile is skipped.
\<close>

fun find_loop :: "timestamp_format_t list \<Rightarrow> string \<Rightarrow> (nat \<times> nat) option \<Rightarrow> (nat \<times> nat) option" where
  "find_loop [] line best = best"
| "find_loop (f # fs) line best =
     (case regcomp_ere (pattern f) of
        None \<Rightarrow> find_loop fs line best
      | Some re \<Rightarrow>
          (case regexec re line of
             None \<Rightarrow> find_loop fs line best
           | Some (so, eo) \<Rightarrow>
               (case best of
                  None \<Rightarrow> find_loop fs line (Some (so, eo))
                | Some (bs, be) \<Rightarrow>
                    if so < bs then find_loop fs line (Some (so, eo))
                    else find_loop fs line best)))"

definition find_timestamp_match ::
    "string option \<Rightarrow> bool \<Rightarrow> bool \<Rightarrow> ts_error_t + (nat \<times> nat)" where
  "find_timestamp_match line start_pos end_pos =
     (case line of
        None \<Rightarrow> Inl TS_ERROR_INVALID_ARGUMENT
      | Some l \<Rightarrow>
          if \<not> start_pos \<or> \<not> end_pos then Inl TS_ERROR_INVALID_ARGUMENT
          else
            (case find_loop timestamp_formats l None of
               None \<Rightarrow> Inl TS_ERROR_TIME_PARSE
             | Some span \<Rightarrow> Inr span))"

section \<open>The numeric parsers\<close>

text \<open>
  \<open>strtoul\<close> with base 10 in the C locale: optional white space, an optional sign,
  then the longest run of digits. The result is the converted value, whether
  \<open>errno\<close> was set to \<open>ERANGE\<close>, and the offset of \<open>endptr\<close> from the start of the
  text. With no digits nothing is converted and \<open>endptr\<close> is the start; a value
  above \<open>ULONG_MAX\<close> gives \<open>ULONG_MAX\<close> and \<open>ERANGE\<close>; a minus sign negates the value
  in the unsigned type.
\<close>

definition isspace :: "char \<Rightarrow> bool" where
  "isspace c = (c = CHR '' '' \<or> (9 \<le> byte c \<and> byte c \<le> 13))"

definition strtoul10 :: "string \<Rightarrow> 64 word \<times> bool \<times> nat" where
  "strtoul10 s =
     (let ws = takeWhile isspace s;
          s1 = dropWhile isspace s;
          sg = (case s1 of [] \<Rightarrow> 0 | c # _ \<Rightarrow> if c = CHR ''+'' \<or> c = CHR ''-'' then 1 else (0::nat));
          neg = (case s1 of [] \<Rightarrow> False | c # _ \<Rightarrow> c = CHR ''-'');
          ds = takeWhile isdigit (drop sg s1)
      in if ds = [] then (0, False, 0)
         else if 2 ^ 64 \<le> digits_val ds then (- 1, True, length ws + sg + length ds)
         else (if neg then - of_nat (digits_val ds) else of_nat (digits_val ds),
               False, length ws + sg + length ds))"

text \<open>
  The byte at an offset of a C string: the terminator stands right after the last
  byte of the list.
\<close>

definition c_at :: "string \<Rightarrow> nat \<Rightarrow> char" where
  "c_at s i = (if i < length s then s ! i else CHR 0x00)"

text \<open>The C string that starts a byte array: the bytes before its first NUL.\<close>

definition cstr :: "char list \<Rightarrow> string" where
  "cstr b = takeWhile (\<lambda>c. c \<noteq> CHR 0x00) b"

definition strchr :: "string \<Rightarrow> char \<Rightarrow> nat option" where
  "strchr s c = (if c \<in> set s then Some (length (takeWhile (\<lambda>x. x \<noteq> c) s)) else None)"

definition parse_unix_timestamp_plain :: "string option \<Rightarrow> bool \<Rightarrow> ts_error_t + int" where
  "parse_unix_timestamp_plain timestamp_str result =
     (case timestamp_str of
        None \<Rightarrow> Inl TS_ERROR_INVALID_ARGUMENT
      | Some s \<Rightarrow>
          if \<not> result then Inl TS_ERROR_INVALID_ARGUMENT
          else
            (case strtoul10 s of
               (secs, erange, endptr) \<Rightarrow>
                 if erange \<or> c_at s endptr \<noteq> CHR 0x00 \<or> secs = 0 then Inl TS_ERROR_TIME_PARSE
                 else Inr (sint secs)))"

text \<open>
  The fractional parser writes a NUL over the first dot, converts, and writes the dot
  back before it tests the byte at \<open>endptr\<close>; the model keeps that order. \<open>buf\<close> is
  the caller's array while the NUL is in place, \<open>buf'\<close> after the dot is restored.
\<close>

definition parse_unix_timestamp_fractional :: "string option \<Rightarrow> bool \<Rightarrow> ts_error_t + int" where
  "parse_unix_timestamp_fractional timestamp_str result =
     (case timestamp_str of
        None \<Rightarrow> Inl TS_ERROR_INVALID_ARGUMENT
      | Some s \<Rightarrow>
          if \<not> result then Inl TS_ERROR_INVALID_ARGUMENT
          else
            (case strchr s CHR ''.'' of
               None \<Rightarrow> Inl TS_ERROR_TIME_PARSE
             | Some dot_pos \<Rightarrow>
                 (let buf = s[dot_pos := CHR 0x00] in
                  (case strtoul10 (cstr buf) of
                     (secs, erange, endptr) \<Rightarrow>
                       (let buf' = buf[dot_pos := CHR ''.''] in
                        if erange \<or> c_at buf' endptr \<noteq> CHR 0x00 \<or> secs = 0
                        then Inl TS_ERROR_TIME_PARSE
                        else Inr (sint secs))))))"

section \<open>The calendar parser\<close>

text \<open>
  \<open>struct tm\<close>, and the C library's clock and calendar functions as parameters of
  the model: they depend on the time zone, the locale and the moment of the call.
  \<open>c_time\<close> is the value of \<open>time(NULL)\<close> (\<open>-1\<close> when it fails), taken to be the
  same for the calls made while one line is processed; \<open>c_localtime\<close> and
  \<open>c_gmtime\<close> answer \<open>None\<close> for the null pointer; \<open>c_mktime\<close> answers the time
  (\<open>-1\<close> when it fails) and the normalised structure it leaves behind;
  \<open>c_strptime text fmt tm\<close> answers the structure with the parsed fields filled in, or
  \<open>None\<close> for the null pointer; \<open>c_strftime fmt tm\<close> is the complete expansion of a
  format.
\<close>

record tm =
  tm_sec :: int
  tm_min :: int
  tm_hour :: int
  tm_mday :: int
  tm_mon :: int
  tm_year :: int
  tm_wday :: int
  tm_yday :: int
  tm_isdst :: int

record libc =
  c_time :: int
  c_localtime :: "int \<Rightarrow> tm option"
  c_gmtime :: "int \<Rightarrow> tm option"
  c_mktime :: "tm \<Rightarrow> int \<times> tm"
  c_strptime :: "string \<Rightarrow> string \<Rightarrow> tm \<Rightarrow> tm option"
  c_strftime :: "string \<Rightarrow> tm \<Rightarrow> string"

definition tm_zero :: tm where
  "tm_zero = \<lparr>tm_sec = 0, tm_min = 0, tm_hour = 0, tm_mday = 0, tm_mon = 0, tm_year = 0,
              tm_wday = 0, tm_yday = 0, tm_isdst = 0\<rparr>"

text \<open>
  The defaults for missing fields: the current local year for a year of 0, the first
  for a day of 0 (the assignment to \<open>tm_mon\<close> in the source stores the 0 it has just
  read).
\<close>

definition default_fields :: "libc \<Rightarrow> tm \<Rightarrow> ts_error_t + tm" where
  "default_fields env tm_info =
     (case (if tm_year tm_info = 0 then
              (if c_time env = - 1 then Inl TS_ERROR_SYSTEM
               else
                 (case c_localtime env (c_time env) of
                    None \<Rightarrow> Inl TS_ERROR_SYSTEM
                  | Some now_tm \<Rightarrow> Inr (tm_info\<lparr>tm_year := tm_year now_tm\<rparr>)))
            else Inr tm_info) of
        Inl e \<Rightarrow> Inl e
      | Inr t \<Rightarrow> Inr (if tm_mday t = 0 then t\<lparr>tm_mday := 1\<rparr> else t))"

definition parse_timestamp_strptime ::
    "libc \<Rightarrow> string option \<Rightarrow> string option \<Rightarrow> bool \<Rightarrow> ts_error_t + int" where
  "parse_timestamp_strptime env timestamp_str fmt result =
     (case timestamp_str of
        None \<Rightarrow> Inl TS_ERROR_INVALID_ARGUMENT
      | Some s \<Rightarrow>
          (case fmt of
             None \<Rightarrow> Inl TS_ERROR_INVALID_ARGUMENT
           | Some f \<Rightarrow>
               if \<not> result then Inl TS_ERROR_INVALID_ARGUMENT
               else
                 (case c_strptime env s f tm_zero of
                    None \<Rightarrow> Inl TS_ERROR_TIME_PARSE
                  | Some parsed \<Rightarrow>
                      (case default_fields env parsed of
                         Inl e \<Rightarrow> Inl e
                       | Inr tm_info \<Rightarrow>
                           (case c_mktime env tm_info of
                              (t1, tm1) \<Rightarrow>
                                if t1 = - 1 then Inl TS_ERROR_TIME_PARSE
                                else if c_time env \<noteq> - 1 \<and>
                                        t1 > c_time env + SECONDS_PER_DAY * FUTURE_THRESHOLD_DAYS
                                then
                                  (case c_mktime env (tm1\<lparr>tm_year := tm_year tm1 - 1\<rparr>) of
                                     (t2, tm2) \<Rightarrow>
                                       if t2 = - 1 then Inl TS_ERROR_TIME_PARSE else Inr t2)
                                else Inr t1)))))"

section \<open>Detecting and parsing the timestamp of a line\<close>

text \<open>
  The loop of \<open>parse_timestamp_in_line\<close>. A match of 128 bytes or more is skipped
  before any parser sees it; the text handed to a parser is the copy of the match in
  the local array \<open>timestamp_str\<close>.
\<close>

fun parse_loop :: "libc \<Rightarrow> timestamp_format_t list \<Rightarrow> string \<Rightarrow> ts_error_t + int" where
  "parse_loop env [] line = Inl TS_ERROR_TIME_PARSE"
| "parse_loop env (f # fs) line =
     (case regcomp_ere (pattern f) of
        None \<Rightarrow> parse_loop env fs line
      | Some re \<Rightarrow>
          (case regexec re line of
             None \<Rightarrow> parse_loop env fs line
           | Some (so, eo) \<Rightarrow>
               if MAX_TIMESTAMP_LENGTH \<le> eo - so then parse_loop env fs line
               else
                 (let timestamp_str = take (eo - so) (drop so line);
                      parse_result =
                        (if name f = ''unix_fractional''
                         then parse_unix_timestamp_fractional (Some timestamp_str) True
                         else if name f = ''unix_plain''
                         then parse_unix_timestamp_plain (Some timestamp_str) True
                         else
                           (case format f of
                              Some fmt \<Rightarrow>
                                parse_timestamp_strptime env (Some timestamp_str) (Some fmt) True
                            | None \<Rightarrow> Inl TS_ERROR_TIME_PARSE))
                  in (case parse_result of
                        Inr t \<Rightarrow> Inr t
                      | Inl e \<Rightarrow> parse_loop env fs line))))"

definition parse_timestamp_in_line :: "libc \<Rightarrow> string option \<Rightarrow> bool \<Rightarrow> ts_error_t + int" where
  "parse_timestamp_in_line env line result =
     (case line of
        None \<Rightarrow> Inl TS_ERROR_INVALID_ARGUMENT
      | Some l \<Rightarrow>
          if \<not> result then Inl TS_ERROR_INVALID_ARGUMENT
          else parse_loop env timestamp_formats l)"

section \<open>Notions used to state the selection rules\<close>

text \<open>
  The span an entry of the table matches in a line: \<open>regcomp\<close> followed by \<open>regexec\<close>,
  as both loops do it, with no parser involved.
\<close>

definition entry_match :: "timestamp_format_t \<Rightarrow> string \<Rightarrow> (nat \<times> nat) option" where
  "entry_match f line =
     (case regcomp_ere (pattern f) of None \<Rightarrow> None | Some re \<Rightarrow> regexec re line)"

text \<open>
  \<open>leftmost_in fs line span\<close>: some entry of \<open>fs\<close> matches \<open>span\<close>, every entry
  before it in \<open>fs\<close> that matches starts strictly later, and every entry after it
  that matches starts no earlier.
\<close>

definition leftmost_in :: "timestamp_format_t list \<Rightarrow> string \<Rightarrow> nat \<times> nat \<Rightarrow> bool" where
  "leftmost_in fs line span =
     (\<exists>pre f post. fs = pre @ f # post \<and> entry_match f line = Some span \<and>
        (\<forall>g \<in> set pre. \<forall>sp. entry_match g line = Some sp \<longrightarrow> fst span < fst sp) \<and>
        (\<forall>g \<in> set post. \<forall>sp. entry_match g line = Some sp \<longrightarrow> fst span \<le> fst sp))"

text \<open>The parser an entry's name and format select, applied to the matched text.\<close>

definition parse_match :: "libc \<Rightarrow> timestamp_format_t \<Rightarrow> string \<Rightarrow> ts_error_t + int" where
  "parse_match env f timestamp_str =
     (if name f = ''unix_fractional''
      then parse_unix_timestamp_fractional (Some timestamp_str) True
      else if name f = ''unix_plain''
      then parse_unix_timestamp_plain (Some timestamp_str) True
      else
        (case format f of
           Some fmt \<Rightarrow> parse_timestamp_strptime env (Some timestamp_str) (Some fmt) True
         | None \<Rightarrow> Inl TS_ERROR_TIME_PARSE))"

text \<open>
  What one entry yields for a line: the time its parser returns for its match, if it
  matches, the match is shorter than \<open>MAX_TIMESTAMP_LENGTH\<close> and the parser succeeds.
\<close>

definition entry_attempt :: "libc \<Rightarrow> timestamp_format_t \<Rightarrow> string \<Rightarrow> int option" where
  "entry_attempt env f line =
     (case entry_match f line of
        None \<Rightarrow> None
      | Some (so, eo) \<Rightarrow>
          if MAX_TIMESTAMP_LENGTH \<le> eo - so then None
          else
            (case parse_match env f (take (eo - so) (drop so line)) of
               Inr t \<Rightarrow> Some t
             | Inl e \<Rightarrow> None))"

text \<open>
  \<open>first_parse_in env fs line t\<close>: some entry of \<open>fs\<close> yields \<open>t\<close> and no entry before
  it in \<open>fs\<close> yields anything.
\<close>

definition first_parse_in :: "libc \<Rightarrow> timestamp_format_t list \<Rightarrow> string \<Rightarrow> int \<Rightarrow> bool" where
  "first_parse_in env fs line t =
     (\<exists>pre f post. fs = pre @ f # post \<and> entry_attempt env f line = Some t \<and>
        (\<forall>g \<in> set pre. entry_attempt env g line = None))"

text \<open>
  A C library to run the model on concrete inputs: the clock stands at 1700000000,
  the local year is 2023, \<open>strptime\<close> reads every text as 22 December 22:25:23 (of
  2030 when the format has a year), and \<open>mktime\<close> counts years of 365 days.
\<close>

definition demo_libc :: libc where
  "demo_libc =
     \<lparr>c_time = 1700000000,
      c_localtime = (\<lambda>t. Some (tm_zero\<lparr>tm_year := 123, tm_sec := t mod 60\<rparr>)),
      c_gmtime = (\<lambda>t. Some (tm_zero\<lparr>tm_year := 70, tm_sec := t mod 60\<rparr>)),
      c_mktime = (\<lambda>t. ((tm_year t - 70) * 31536000 + tm_mon t * 2592000 + tm_mday t * 86400
                        + tm_hour t * 3600 + tm_min t * 60 + tm_sec t, t)),
      c_strptime = (\<lambda>s f t. Some (t\<lparr>tm_sec := 23, tm_min := 25, tm_hour := 22, tm_mday := 22,
                        tm_mon := 11,
                        tm_year := (if CHR ''Y'' \<in> set f \<or> CHR ''y'' \<in> set f then 130 else 0)\<rparr>)),
      c_strftime = (\<lambda>f t. f)\<rparr>"

text \<open>A line that is one run of 128 digits: 118 zeros, then 1755921813.\<close>

definition long_digits :: string where
  "long_digits = replicate 118 CHR ''0'' @ ''1755921813''"

section \<open>Buffers and the safe text primitives\<close>

text \<open>
  A destination buffer is the memory from the destination pointer on, one byte per
  offset, including what lies beyond the capacity the caller states: a write past the
  capacity would show as a changed byte there. Source strings are C strings apart
  from the destination.
\<close>

type_synonym buf = "nat \<Rightarrow> char"

text \<open>\<open>memcpy(dest + off, bs, length bs)\<close>.\<close>

definition memcpy :: "buf \<Rightarrow> nat \<Rightarrow> char list \<Rightarrow> buf" where
  "memcpy dest off bs =
     (\<lambda>i. if off \<le> i \<and> i < off + length bs then bs ! (i - off) else dest i)"

definition strnlen :: "buf \<Rightarrow> nat \<Rightarrow> nat" where
  "strnlen s maxlen = length (takeWhile (\<lambda>c. c \<noteq> CHR 0x00) (map s [0..<maxlen]))"

text \<open>The C string a buffer of \<open>n\<close> bytes holds: its bytes before the first NUL.\<close>

definition buf_string :: "buf \<Rightarrow> nat \<Rightarrow> string" where
  "buf_string b n = takeWhile (\<lambda>c. c \<noteq> CHR 0x00) (map b [0..<n])"

definition safe_strcat :: "buf option \<Rightarrow> nat \<Rightarrow> string option \<Rightarrow> ts_error_t \<times> buf option" where
  "safe_strcat dest dest_size src =
     (case dest of
        None \<Rightarrow> (TS_ERROR_INVALID_ARGUMENT, None)
      | Some d \<Rightarrow>
          (case src of
             None \<Rightarrow> (TS_ERROR_INVALID_ARGUMENT, Some d)
           | Some s \<Rightarrow>
               (let dest_len = strnlen d dest_size; src_len = length s in
                if dest_size \<le> dest_len + src_len then (TS_ERROR_BUFFER_OVERFLOW, Some d)
                else (TS_SUCCESS, Some (memcpy d dest_len (s @ [CHR 0x00]))))))"

subsection \<open>Formatted output\<close>

text \<open>
  The decimal digits of a number, and \<open>printf\<close>'s conversion of a signed integer with
  a minimum field width and the \<open>0\<close> flag: padding goes after the sign when the flag
  is set, before it (as spaces) otherwise.
\<close>

definition digit_char :: "nat \<Rightarrow> char" where
  "digit_char d = ''0123456789'' ! d"

fun dec_nat :: "nat \<Rightarrow> string" where
  "dec_nat n = (if n < 10 then [digit_char n] else dec_nat (n div 10) @ [digit_char (n mod 10)])"

declare dec_nat.simps [simp del]

definition printf_int :: "bool \<Rightarrow> nat \<Rightarrow> int \<Rightarrow> string" where
  "printf_int zero width v =
     (let ds = dec_nat (nat \<bar>v\<bar>);
          sign = (if v < 0 then ''-'' else []);
          padn = width - (length sign + length ds)
      in if zero then sign @ replicate padn CHR ''0'' @ ds
         else replicate padn CHR '' '' @ sign @ ds)"

datatype printf_arg = ArgInt int | ArgStr string

text \<open>
  The text a \<open>printf\<close> format expands to, for the directives the source uses: \<open>%d\<close>,
  \<open>%ld\<close> and \<open>%s\<close> with an optional \<open>0\<close> flag and field width, and \<open>%%\<close>. The
  first argument of \<open>printf_go\<close> says whether the scan is inside a directive, the next
  two are its flag and width so far. Outside this fragment, or when the arguments do
  not fit the directives, C leaves the behaviour undefined; the model stops the text.
\<close>

fun printf_go :: "bool \<Rightarrow> bool \<Rightarrow> nat \<Rightarrow> string \<Rightarrow> printf_arg list \<Rightarrow> string" where
  "printf_go in_dir zero width [] args = []"
| "printf_go False zero width (c # cs) args =
     (if c = CHR ''%'' then printf_go True False 0 cs args
      else c # printf_go False False 0 cs args)"
| "printf_go True zero width (c # cs) args =
     (if c = CHR ''0'' \<and> width = 0 then printf_go True True 0 cs args
      else if isdigit c then printf_go True zero (10 * width + digit_val c) cs args
      else if c = CHR ''l'' then printf_go True zero width cs args
      else if c = CHR ''d'' then
        (case args of
           ArgInt v # rest \<Rightarrow> printf_int zero width v @ printf_go False False 0 cs rest
         | _ \<Rightarrow> [])
      else if c = CHR ''s'' then
        (case args of
           ArgStr s # rest \<Rightarrow>
             replicate (width - length s) CHR '' '' @ s @ printf_go False False 0 cs rest
         | _ \<Rightarrow> [])
      else if c = CHR ''%'' then c # printf_go False False 0 cs args
      else [])"

definition printf_text :: "string \<Rightarrow> printf_arg list \<Rightarrow> string" where
  "printf_text fmt args = printf_go False False 0 fmt args"

text \<open>
  \<open>vsnprintf\<close>: at most \<open>maxlen - 1\<close> bytes of the text and a NUL are written (nothing
  when \<open>maxlen\<close> is 0), and the length of the whole text is returned. The directives of
  the fragment cannot fail, so the result is never negative; the test of the source
  is kept.
\<close>

definition vsnprintf :: "buf \<Rightarrow> nat \<Rightarrow> string \<Rightarrow> printf_arg list \<Rightarrow> buf \<times> int" where
  "vsnprintf dest maxlen fmt args =
     (let out = printf_text fmt args in
      (if maxlen = 0 then dest else memcpy dest 0 (take (maxlen - 1) out @ [CHR 0x00]),
       int (length out)))"

definition safe_snprintf ::
    "buf option \<Rightarrow> nat \<Rightarrow> string option \<Rightarrow> printf_arg list \<Rightarrow> ts_error_t \<times> buf option" where
  "safe_snprintf dest dest_size fmt args =
     (case dest of
        None \<Rightarrow> (TS_ERROR_INVALID_ARGUMENT, None)
      | Some d \<Rightarrow>
          (case fmt of
             None \<Rightarrow> (TS_ERROR_INVALID_ARGUMENT, Some d)
           | Some f \<Rightarrow>
               (case vsnprintf d dest_size f args of
                  (d', result) \<Rightarrow>
                    if result < 0 \<or> dest_size \<le> nat result
                    then (TS_ERROR_BUFFER_OVERFLOW, Some d')
                    else (TS_SUCCESS, Some d'))))"

text \<open>A buffer that holds \<open>"Hi"\<close>, to run the primitives on.\<close>

definition demo_buf :: buf where
  "demo_buf = memcpy (\<lambda>i. CHR ''#'') 0 (''Hi'' @ [CHR 0x00])"

section \<open>Replacing the timestamp of a line\<close>

definition replace_timestamp_in_line ::
    "buf option \<Rightarrow> nat \<Rightarrow> string option \<Rightarrow> string option \<Rightarrow> ts_error_t \<times> buf option" where
  "replace_timestamp_in_line output output_size line new_timestamp =
     (case output of
        None \<Rightarrow> (TS_ERROR_INVALID_ARGUMENT, None)
      | Some out \<Rightarrow>
          (case line of
             None \<Rightarrow> (TS_ERROR_INVALID_ARGUMENT, Some out)
           | Some l \<Rightarrow>
               (case new_timestamp of
                  None \<Rightarrow> (TS_ERROR_INVALID_ARGUMENT, Some out)
                | Some nt \<Rightarrow>
                    (case find_timestamp_match (Some l) True True of
                       Inr (start_pos, end_pos) \<Rightarrow>
                         (let before_len = start_pos;
                              after_start = end_pos;
                              new_timestamp_len = length nt;
                              after_len = length (drop after_start l)
                          in if output_size \<le> before_len + new_timestamp_len + after_len
                             then (TS_ERROR_BUFFER_OVERFLOW, Some out)
                             else
                               (let o1 = memcpy out 0 (take before_len l);
                                    o2 = o1(before_len := CHR 0x00);
                                    o3 = memcpy o2 before_len nt;
                                    o4 = o3(before_len + new_timestamp_len := CHR 0x00);
                                    o5 = memcpy o4 (before_len + new_timestamp_len)
                                           (drop after_start l @ [CHR 0x00])
                                in (TS_SUCCESS, Some o5)))
                     | Inl e \<Rightarrow>
                         (let line_len = length l in
                          if output_size \<le> line_len then (TS_ERROR_BUFFER_OVERFLOW, Some out)
                          else (TS_SUCCESS, Some (memcpy out 0 (l @ [CHR 0x00]))))))))"

section \<open>Formatting a point in time\<close>

text \<open>
  C's integer division truncates towards zero, and the remainder takes the sign of
  the dividend.
\<close>

definition c_div :: "int \<Rightarrow> int \<Rightarrow> int" where
  "c_div a b = sgn a * sgn b * (\<bar>a\<bar> div \<bar>b\<bar>)"

definition c_mod :: "int \<Rightarrow> int \<Rightarrow> int" where
  "c_mod a b = a - b * c_div a b"

text \<open>
  \<open>strftime(buf, maxlen, fmt, tm)\<close>: \<open>None\<close> when it returns 0, which it does when the
  expansion with its NUL does not fit \<open>maxlen\<close> bytes and when the expansion is empty;
  otherwise the text left in \<open>buf\<close>.
\<close>

definition strftime_n :: "libc \<Rightarrow> nat \<Rightarrow> string \<Rightarrow> tm \<Rightarrow> string option" where
  "strftime_n env maxlen fmt t =
     (let out = c_strftime env fmt t in
      if out = [] \<or> maxlen \<le> length out then None else Some out)"

text \<open>
  The two calls that extend the local array \<open>result\<close>, on its content as a C string:
  \<open>safe_snprintf(result + strlen(result), cap - strlen(result), fmt, ...)\<close> and
  \<open>safe_strcat(result, cap, src)\<close>. \<open>Inr\<close> is the content after a successful call.
\<close>

definition snprintf_append ::
    "string \<Rightarrow> nat \<Rightarrow> string \<Rightarrow> printf_arg list \<Rightarrow> ts_error_t + string" where
  "snprintf_append result cap fmt args =
     (let out = printf_text fmt args in
      if cap - length result \<le> length out then Inl TS_ERROR_BUFFER_OVERFLOW
      else Inr (result @ out))"

definition strcat_append :: "string \<Rightarrow> nat \<Rightarrow> string \<Rightarrow> ts_error_t + string" where
  "strcat_append result cap src =
     (if cap \<le> length result + length src then Inl TS_ERROR_BUFFER_OVERFLOW
      else Inr (result @ src))"

text \<open>
  The first pass of \<open>format_timestamp_with_subsecond\<close>: \<open>current\<close> is the rest of the
  format, \<open>result\<close> the content of the array of \<open>MAX_FORMAT_LENGTH\<close> bytes so far.
\<close>

function first_pass ::
    "libc \<Rightarrow> tm \<Rightarrow> high_res_time_t \<Rightarrow> string \<Rightarrow> string \<Rightarrow> ts_error_t + string" where
  "first_pass env tm_info ts current result =
     (if current = [] then Inr result
      else if take 3 current = ''%.S'' then
        (case snprintf_append result MAX_FORMAT_LENGTH ''%02d.%06ld''
                [ArgInt (tm_sec tm_info), ArgInt (c_div (nanoseconds ts) 1000)] of
           Inl e \<Rightarrow> Inl e
         | Inr r \<Rightarrow> first_pass env tm_info ts (drop 3 current) r)
      else if take 3 current = ''%.s'' then
        (case snprintf_append result MAX_FORMAT_LENGTH ''%ld.%06ld''
                [ArgInt (seconds ts), ArgInt (c_div (nanoseconds ts) 1000)] of
           Inl e \<Rightarrow> Inl e
         | Inr r \<Rightarrow> first_pass env tm_info ts (drop 3 current) r)
      else if take 3 current = ''%.T'' then
        (case strftime_n env MAX_TIME_STR_LENGTH ''%H:%M:%S'' tm_info of
           None \<Rightarrow> Inl TS_ERROR_BUFFER_OVERFLOW
         | Some time_str \<Rightarrow>
             (case snprintf_append result MAX_FORMAT_LENGTH ''%s.%06ld''
                     [ArgStr time_str, ArgInt (c_div (nanoseconds ts) 1000)] of
                Inl e \<Rightarrow> Inl e
              | Inr r \<Rightarrow> first_pass env tm_info ts (drop 3 current) r))
      else if take 2 current = ''%N'' then
        (case snprintf_append result MAX_FORMAT_LENGTH ''%09ld'' [ArgInt (nanoseconds ts)] of
           Inl e \<Rightarrow> Inl e
         | Inr r \<Rightarrow> first_pass env tm_info ts (drop 2 current) r)
      else if take 2 current = ''%s'' then
        (case snprintf_append result MAX_FORMAT_LENGTH ''%ld'' [ArgInt (seconds ts)] of
           Inl e \<Rightarrow> Inl e
         | Inr r \<Rightarrow> first_pass env tm_info ts (drop 2 current) r)
      else
        (case strcat_append result MAX_FORMAT_LENGTH [hd current] of
           Inl e \<Rightarrow> Inl e
         | Inr r \<Rightarrow> first_pass env tm_info ts (tl current) r))"
  by pat_completeness auto
termination
  by (relation "measure (\<lambda>(env, tm_info, ts, current, result). length current)") auto

declare first_pass.simps [simp del]

definition format_timestamp_with_subsecond ::
    "libc \<Rightarrow> bool \<Rightarrow> nat \<Rightarrow> string option \<Rightarrow> high_res_time_t option \<Rightarrow> ts_error_t + string" where
  "format_timestamp_with_subsecond env buffer buffer_size fmt timestamp =
     (case fmt of
        None \<Rightarrow> Inl TS_ERROR_INVALID_ARGUMENT
      | Some f \<Rightarrow>
          (case timestamp of
             None \<Rightarrow> Inl TS_ERROR_INVALID_ARGUMENT
           | Some ts \<Rightarrow>
               if \<not> buffer then Inl TS_ERROR_INVALID_ARGUMENT
               else
                 (case c_localtime env (seconds ts) of
                    None \<Rightarrow> Inl TS_ERROR_SYSTEM
                  | Some tm_info \<Rightarrow>
                      (case first_pass env tm_info ts f [] of
                         Inl e \<Rightarrow> Inl e
                       | Inr result \<Rightarrow>
                           if CHR ''%'' \<in> set result then
                             (case strftime_n env MAX_FORMAT_LENGTH result tm_info of
                                None \<Rightarrow> Inl TS_ERROR_BUFFER_OVERFLOW
                              | Some temp_buffer \<Rightarrow>
                                  if buffer_size \<le> length temp_buffer
                                  then Inl TS_ERROR_BUFFER_OVERFLOW
                                  else Inr temp_buffer)
                           else if buffer_size \<le> length result
                           then Inl TS_ERROR_BUFFER_OVERFLOW
                           else Inr result))))"

subsection \<open>The two passes as the specification words them\<close>

text \<open>
  A number in decimal, padded with zeros on the left to a width; the epoch seconds as
  a plain integer.
\<close>

definition zero_padded :: "nat \<Rightarrow> nat \<Rightarrow> string" where
  "zero_padded w n = replicate (w - length (dec_nat n)) CHR ''0'' @ dec_nat n"

definition plain_integer :: "int \<Rightarrow> string" where
  "plain_integer v = (if v < 0 then ''-'' @ dec_nat (nat (- v)) else dec_nat (nat v))"

text \<open>
  Pass 1 in the specification's words: scanning left to right, \<open>%.S\<close> becomes
  two-digit seconds, a dot and six-digit microseconds; \<open>%.s\<close> the epoch seconds, a
  dot and six-digit microseconds; \<open>%.T\<close> the \<open>HH:MM:SS\<close> of the calendar formatter, a
  dot and six-digit microseconds; \<open>%N\<close> nine-digit nanoseconds; \<open>%s\<close> the epoch
  seconds; every other character is copied.
\<close>

function spec_pass1 :: "libc \<Rightarrow> tm \<Rightarrow> high_res_time_t \<Rightarrow> string \<Rightarrow> string" where
  "spec_pass1 env tm_info ts fmt =
     (if fmt = [] then []
      else if take 3 fmt = ''%.S'' then
        zero_padded 2 (nat (tm_sec tm_info)) @ ''.''
          @ zero_padded 6 (nat (nanoseconds ts) div 1000)
          @ spec_pass1 env tm_info ts (drop 3 fmt)
      else if take 3 fmt = ''%.s'' then
        plain_integer (seconds ts) @ ''.'' @ zero_padded 6 (nat (nanoseconds ts) div 1000)
          @ spec_pass1 env tm_info ts (drop 3 fmt)
      else if take 3 fmt = ''%.T'' then
        c_strftime env ''%H:%M:%S'' tm_info @ ''.''
          @ zero_padded 6 (nat (nanoseconds ts) div 1000)
          @ spec_pass1 env tm_info ts (drop 3 fmt)
      else if take 2 fmt = ''%N'' then
        zero_padded 9 (nat (nanoseconds ts)) @ spec_pass1 env tm_info ts (drop 2 fmt)
      else if take 2 fmt = ''%s'' then
        plain_integer (seconds ts) @ spec_pass1 env tm_info ts (drop 2 fmt)
      else hd fmt # spec_pass1 env tm_info ts (tl fmt))"
  by pat_completeness auto
termination
  by (relation "measure (\<lambda>(env, tm_info, ts, fmt). length fmt)") auto

declare spec_pass1.simps [simp del]

text \<open>
  Pass 2 in the specification's words: the calendar formatter runs on the result of
  pass 1 if and only if it still contains a percent sign.
\<close>

definition spec_format_absolute :: "libc \<Rightarrow> tm \<Rightarrow> high_res_time_t \<Rightarrow> string \<Rightarrow> string" where
  "spec_format_absolute env tm_info ts fmt =
     (let p1 = spec_pass1 env tm_info ts fmt in
      if CHR ''%'' \<in> set p1 then c_strftime env p1 tm_info else p1)"

text \<open>A point in time to run the formatter on.\<close>

definition demo_time :: high_res_time_t where
  "demo_time = \<lparr>seconds = 83, nanoseconds = 5000\<rparr>"

section \<open>The delta modes of the driver\<close>

text \<open>\<open>strstr(haystack, needle) != NULL\<close>.\<close>

fun strstr_found :: "string \<Rightarrow> string \<Rightarrow> bool" where
  "strstr_found [] needle = (needle = [])"
| "strstr_found (c # cs) needle =
     (take (length needle) (c # cs) = needle \<or> strstr_found cs needle)"

text \<open>
  The timestamp text of the incremental and since-start branches of \<open>main\<close>, which
  are the same code on \<open>diff_sec\<close> and \<open>diff_nsec\<close>: the value of \<open>format_result\<close>
  and, when that is \<open>TS_SUCCESS\<close>, the content of \<open>timestamp\<close>.
\<close>

definition delta_timestamp :: "libc \<Rightarrow> string \<Rightarrow> int \<Rightarrow> int \<Rightarrow> ts_error_t + string" where
  "delta_timestamp env fmt diff_sec diff_nsec =
     (if strstr_found fmt ''%.s'' then
        snprintf_append [] MAX_FORMAT_LENGTH ''%ld.%06ld''
          [ArgInt diff_sec, ArgInt (c_div diff_nsec 1000)]
      else if strstr_found fmt ''%.S'' then
        (let total_seconds = c_mod diff_sec 60 in
         snprintf_append [] MAX_FORMAT_LENGTH ''%02ld.%06ld''
           [ArgInt total_seconds, ArgInt (c_div diff_nsec 1000)])
      else if strstr_found fmt ''%.T'' then
        (let hours = c_div diff_sec SECONDS_PER_HOUR;
             minutes = c_div (c_mod diff_sec SECONDS_PER_HOUR) SECONDS_PER_MINUTE;
             secs = c_mod diff_sec SECONDS_PER_MINUTE
         in snprintf_append [] MAX_FORMAT_LENGTH ''%02ld:%02ld:%02ld.%06ld''
              [ArgInt hours, ArgInt minutes, ArgInt secs, ArgInt (c_div diff_nsec 1000)])
      else
        (case c_gmtime env diff_sec of
           None \<Rightarrow> Inl TS_ERROR_BUFFER_OVERFLOW
         | Some tm_info \<Rightarrow>
             (case strftime_n env MAX_FORMAT_LENGTH fmt tm_info of
                None \<Rightarrow> Inl TS_ERROR_BUFFER_OVERFLOW
              | Some t \<Rightarrow> Inr t)))"

text \<open>
  What a delta mode prints for one line: the difference of the two clock readings
  with the borrow of a second, then the timestamp, a space and the line, or the line
  alone when formatting failed. \<open>reference\<close> is \<open>last_time\<close> in the incremental mode
  and \<open>start_time\<close> in the since-start mode.
\<close>

definition delta_mode_output ::
    "libc \<Rightarrow> string \<Rightarrow> high_res_time_t \<Rightarrow> high_res_time_t \<Rightarrow> string \<Rightarrow> string" where
  "delta_mode_output env fmt current_time reference line =
     (let diff_sec = seconds current_time - seconds reference;
          diff_nsec = nanoseconds current_time - nanoseconds reference;
          diff_sec' = (if diff_nsec < 0 then diff_sec - 1 else diff_sec);
          diff_nsec' = (if diff_nsec < 0 then diff_nsec + NANOSECONDS_PER_SECOND else diff_nsec)
      in (case delta_timestamp env fmt diff_sec' diff_nsec' of
            Inr timestamp \<Rightarrow> timestamp @ '' '' @ line
          | Inl e \<Rightarrow> line))"

definition incremental_mode_output ::
    "libc \<Rightarrow> string \<Rightarrow> high_res_time_t \<Rightarrow> high_res_time_t \<Rightarrow> string \<Rightarrow> string" where
  "incremental_mode_output env fmt current_time last_time line =
     delta_mode_output env fmt current_time last_time line"

definition since_start_mode_output ::
    "libc \<Rightarrow> string \<Rightarrow> high_res_time_t \<Rightarrow> high_res_time_t \<Rightarrow> string \<Rightarrow> string" where
  "since_start_mode_output env fmt current_time start_time line =
     delta_mode_output env fmt current_time start_time line"

section \<open>Properties of the leftmost-span locator\<close>

lemma regcomp_table:
  "map (\<lambda>f. regcomp_ere (pattern f)) timestamp_formats =
    [Some [(Alpha, 3, Some 3), (Lit CHR '' '', 1, Some 1), (Digit, 1, Some 2),
           (Lit CHR '' '', 1, Some 1), (Digit, 2, Some 2), (Lit CHR '':'', 1, Some 1),
           (Digit, 2, Some 2), (Lit CHR '':'', 1, Some 1), (Digit, 2, Some 2)],
     Some [(Digit, 4, Some 4), (Lit CHR ''-'', 1, Some 1), (Digit, 2, Some 2),
           (Lit CHR ''-'', 1, Some 1), (Digit, 2, Some 2), (Lit CHR ''T'', 1, Some 1),
           (Digit, 2, Some 2), (Lit CHR '':'', 1, Some 1), (Digit, 2, Some 2),
           (Lit CHR '':'', 1, Some 1), (Digit, 2, Some 2)],
     Some [(Digit, 1, Some 2), (Lit CHR '' '', 1, Some 1), (Alpha, 3, Some 3),
           (Lit CHR '' '', 1, Some 1), (Digit, 2, Some 2), (Lit CHR '' '', 1, Some 1),
           (Digit, 2, Some 2), (Lit CHR '':'', 1, Some 1), (Digit, 2, Some 2),
           (Lit CHR '':'', 1, Some 1), (Digit, 2, Some 2)],
     Some [(Alpha, 3, Some 3), (Lit CHR '' '', 1, Some 1), (Alpha, 3, Some 3),
           (Lit CHR '' '', 1, Some 1), (Digit, 2, Some 2), (Lit CHR '' '', 1, Some 1),
           (Digit, 2, Some 2), (Lit CHR '':'', 1, Some 1), (Digit, 2, Some 2)],
     Some [(Digit, 2, Some 2), (Lit CHR '' '', 1, Some 1), (Lower, 3, Some 3),
           (Lit CHR '' '', 1, Some 1), (Digit, 2, Some 2), (Lit CHR '':'', 1, Some 1),
           (Digit, 2, Some 2)],
     Some [(Digit, 2, Some 2), (Lit CHR '' '', 1, Some 1), (Lower, 3, Some 3),
           (Lit CHR ''/'', 1, Some 1), (Digit, 2, Some 2), (Lit CHR '' '', 1, Some 1),
           (Digit, 2, Some 2), (Lit CHR '':'', 1, Some 1), (Digit, 2, Some 2),
           (Lit CHR '':'', 1, Some 1), (Digit, 2, Some 2)],
     Some [(Digit, 10, None), (Lit CHR ''.'', 1, Some 1), (Digit, 1, Some 9)],
     Some [(Digit, 10, None)]]"
  by code_simp

lemma find_loop_step:
  "find_loop (f # fs) line best =
     (case entry_match f line of
        None \<Rightarrow> find_loop fs line best
      | Some sp \<Rightarrow>
          (case best of
             None \<Rightarrow> find_loop fs line (Some sp)
           | Some b \<Rightarrow>
               if fst sp < fst b then find_loop fs line (Some sp) else find_loop fs line best))"
  by (auto simp: entry_match_def split: option.splits prod.splits)

lemma find_loop_best_Some: "find_loop fs line (Some b) \<noteq> None"
proof (induction fs arbitrary: b)
  case Nil
  show ?case by simp
next
  case (Cons f fs)
  show ?case
  proof (cases "entry_match f line")
    case None
    then have "find_loop (f # fs) line (Some b) = find_loop fs line (Some b)"
      by (simp add: find_loop_step del: find_loop.simps)
    then show ?thesis using Cons.IH [of b] by simp
  next
    case (Some sp)
    then have "find_loop (f # fs) line (Some b) =
        (if fst sp < fst b then find_loop fs line (Some sp) else find_loop fs line (Some b))"
      by (simp add: find_loop_step del: find_loop.simps)
    then show ?thesis using Cons.IH [of b] Cons.IH [of sp] by (simp del: find_loop.simps)
  qed
qed

lemma find_loop_None:
  "find_loop fs line best = None \<longleftrightarrow>
     best = None \<and> (\<forall>f \<in> set fs. entry_match f line = None)"
proof (induction fs)
  case Nil
  show ?case by simp
next
  case (Cons f fs)
  show ?case
  proof (cases best)
    case None
    then show ?thesis
      using Cons.IH
      by (simp only: find_loop_step) (simp add: find_loop_best_Some split: option.splits)
  next
    case (Some b)
    then show ?thesis by (simp add: find_loop_best_Some del: find_loop.simps)
  qed
qed

lemma leftmost_in_Cons_later:
  assumes "leftmost_in fs line span"
    and "\<forall>sp. entry_match f line = Some sp \<longrightarrow> fst span < fst sp"
  shows "leftmost_in (f # fs) line span"
proof -
  from assms(1) obtain pre g post where d: "fs = pre @ g # post" "entry_match g line = Some span"
    "\<forall>h \<in> set pre. \<forall>sp. entry_match h line = Some sp \<longrightarrow> fst span < fst sp"
    "\<forall>h \<in> set post. \<forall>sp. entry_match h line = Some sp \<longrightarrow> fst span \<le> fst sp"
    unfolding leftmost_in_def by blast
  have "f # fs = (f # pre) @ g # post" using d(1) by simp
  moreover have "\<forall>h \<in> set (f # pre). \<forall>sp. entry_match h line = Some sp \<longrightarrow> fst span < fst sp"
    using d(3) assms(2) by auto
  ultimately show ?thesis
    unfolding leftmost_in_def using d(2) d(4) by blast
qed

lemma leftmost_in_Cons_here:
  assumes "entry_match f line = Some span"
    and "\<forall>g \<in> set fs. \<forall>sp. entry_match g line = Some sp \<longrightarrow> fst span \<le> fst sp"
  shows "leftmost_in (f # fs) line span"
proof -
  have "f # fs = [] @ f # fs" by simp
  then show ?thesis
    unfolding leftmost_in_def using assms by fastforce
qed

lemma find_loop_Some:
  "find_loop fs line best = Some span \<Longrightarrow>
     (best = Some span \<and>
        (\<forall>g \<in> set fs. \<forall>sp. entry_match g line = Some sp \<longrightarrow> fst span \<le> fst sp))
     \<or> (leftmost_in fs line span \<and> (\<forall>b. best = Some b \<longrightarrow> fst span < fst b))"
proof (induction fs arbitrary: best)
  case Nil
  then show ?case by simp
next
  case (Cons f fs)
  show ?case
  proof (cases "entry_match f line")
    case None
    with Cons.prems have "find_loop fs line best = Some span"
      by (simp add: find_loop_step del: find_loop.simps)
    from Cons.IH [OF this] show ?thesis
    proof
      assume "best = Some span \<and>
        (\<forall>g \<in> set fs. \<forall>sp. entry_match g line = Some sp \<longrightarrow> fst span \<le> fst sp)"
      with None show ?thesis by auto
    next
      assume a: "leftmost_in fs line span \<and> (\<forall>b. best = Some b \<longrightarrow> fst span < fst b)"
      then have "leftmost_in (f # fs) line span"
        using leftmost_in_Cons_later [of fs line span f] None by simp
      with a show ?thesis by blast
    qed
  next
    case (Some sp)
    show ?thesis
    proof (cases "\<exists>b. best = Some b \<and> \<not> fst sp < fst b")
      case True
      then obtain b where b: "best = Some b" "\<not> fst sp < fst b" by blast
      with Cons.prems Some have "find_loop fs line best = Some span"
        by (simp add: find_loop_step del: find_loop.simps)
      from Cons.IH [OF this] show ?thesis
      proof
        assume "best = Some span \<and>
          (\<forall>g \<in> set fs. \<forall>sp. entry_match g line = Some sp \<longrightarrow> fst span \<le> fst sp)"
        with Some b show ?thesis by auto
      next
        assume a: "leftmost_in fs line span \<and> (\<forall>b. best = Some b \<longrightarrow> fst span < fst b)"
        then have "fst span < fst sp" using b by auto
        then have "leftmost_in (f # fs) line span"
          using leftmost_in_Cons_later [of fs line span f] a Some by simp
        with a show ?thesis by blast
      qed
    next
      case False
      with Cons.prems Some have fl: "find_loop fs line (Some sp) = Some span"
        by (cases best) (auto simp: find_loop_step simp del: find_loop.simps split: if_splits)
      from False have bl: "\<forall>b. best = Some b \<longrightarrow> fst sp < fst b" by auto
      from Cons.IH [OF fl] show ?thesis
      proof
        assume a: "Some sp = Some span \<and>
          (\<forall>g \<in> set fs. \<forall>sp. entry_match g line = Some sp \<longrightarrow> fst span \<le> fst sp)"
        then have "leftmost_in (f # fs) line span"
          using leftmost_in_Cons_here [of f line span fs] Some by simp
        with a bl show ?thesis by auto
      next
        assume a: "leftmost_in fs line span \<and> (\<forall>b. Some sp = Some b \<longrightarrow> fst span < fst b)"
        then have lt: "fst span < fst sp" by auto
        then have "leftmost_in (f # fs) line span"
          using leftmost_in_Cons_later [of fs line span f] a Some by simp
        moreover have "\<forall>b. best = Some b \<longrightarrow> fst span < fst b" using bl lt by auto
        ultimately show ?thesis by blast
      qed
    qed
  qed
qed

lemma leftmost_in_unique:
  assumes "leftmost_in fs line sp1" "leftmost_in fs line sp2"
  shows "sp1 = sp2"
proof -
  from assms(1) obtain pre1 f1 post1 where d1: "fs = pre1 @ f1 # post1"
    "entry_match f1 line = Some sp1"
    "\<forall>h \<in> set pre1. \<forall>sp. entry_match h line = Some sp \<longrightarrow> fst sp1 < fst sp"
    "\<forall>h \<in> set post1. \<forall>sp. entry_match h line = Some sp \<longrightarrow> fst sp1 \<le> fst sp"
    unfolding leftmost_in_def by blast
  from assms(2) obtain pre2 f2 post2 where d2: "fs = pre2 @ f2 # post2"
    "entry_match f2 line = Some sp2"
    "\<forall>h \<in> set pre2. \<forall>sp. entry_match h line = Some sp \<longrightarrow> fst sp2 < fst sp"
    "\<forall>h \<in> set post2. \<forall>sp. entry_match h line = Some sp \<longrightarrow> fst sp2 \<le> fst sp"
    unfolding leftmost_in_def by blast
  have eq: "pre1 @ f1 # post1 = pre2 @ f2 # post2" using d1(1) d2(1) by simp
  then consider (same) "pre1 = pre2" "f1 = f2"
    | (l) us where "pre2 = pre1 @ f1 # us"
    | (r) us where "pre1 = pre2 @ f2 # us"
    by (auto simp: append_eq_append_conv2 Cons_eq_append_conv append_eq_Cons_conv)
  then show ?thesis
  proof cases
    case same
    then show ?thesis using d1(2) d2(2) by simp
  next
    case l
    then have "f1 \<in> set pre2" by simp
    then have a: "fst sp2 < fst sp1" using d2(3) d1(2) by blast
    have "f2 \<in> set post1" using eq l by auto
    then have "fst sp1 \<le> fst sp2" using d1(4) d2(2) by blast
    with a show ?thesis by simp
  next
    case r
    then have "f2 \<in> set pre1" by simp
    then have a: "fst sp1 < fst sp2" using d1(3) d2(2) by blast
    have "f1 \<in> set post2" using eq r by auto
    then have "fst sp2 \<le> fst sp1" using d2(4) d1(2) by blast
    with a show ?thesis by simp
  qed
qed

lemma leftmost_in_match: "leftmost_in fs line sp \<Longrightarrow> \<exists>f \<in> set fs. entry_match f line \<noteq> None"
  unfolding leftmost_in_def by auto

lemma find_loop_leftmost:
  "find_loop fs line None = Some span \<longleftrightarrow> leftmost_in fs line span"
proof
  assume "find_loop fs line None = Some span"
  from find_loop_Some [OF this] show "leftmost_in fs line span" by simp
next
  assume a: "leftmost_in fs line span"
  then have "find_loop fs line None \<noteq> None"
    using leftmost_in_match [OF a] by (simp add: find_loop_None)
  then obtain sp where s: "find_loop fs line None = Some sp" by auto
  from find_loop_Some [OF this] have "leftmost_in fs line sp" by simp
  with a have "sp = span" by (rule leftmost_in_unique [rotated])
  with s show "find_loop fs line None = Some span" by simp
qed

lemma find_example: "find_timestamp_match (Some ''1755921813 test line'') True True = Inr (0, 10)"
  by code_simp

text \<open>
  C2. \<open>find_timestamp_match\<close> looks at every entry of the table for a match only, with
  no parser involved, and returns the span that starts leftmost, the earlier entry of
  the table winning among equal starts; it fails with the time-parse code exactly when
  no entry matches; on \<open>"1755921813 test line"\<close> it returns the span \<open>[0, 10)\<close>.
\<close>

theorem find_timestamp_match_leftmost:
  "(find_timestamp_match (Some line) True True = Inr span
      \<longleftrightarrow> leftmost_in timestamp_formats line span)
   \<and> (find_timestamp_match (Some line) True True = Inl TS_ERROR_TIME_PARSE
      \<longleftrightarrow> (\<forall>f \<in> set timestamp_formats. entry_match f line = None))
   \<and> find_timestamp_match (Some ''1755921813 test line'') True True = Inr (0, 10)"
proof -
  have a: "find_timestamp_match (Some line) True True = Inr span
      \<longleftrightarrow> leftmost_in timestamp_formats line span"
    using find_loop_leftmost [of timestamp_formats line span]
    by (auto simp: find_timestamp_match_def split: option.splits)
  have b: "find_timestamp_match (Some line) True True = Inl TS_ERROR_TIME_PARSE
      \<longleftrightarrow> (\<forall>f \<in> set timestamp_formats. entry_match f line = None)"
  proof -
    have "find_timestamp_match (Some line) True True = Inl TS_ERROR_TIME_PARSE
        \<longleftrightarrow> find_loop timestamp_formats line None = None"
      by (simp add: find_timestamp_match_def split: option.splits)
    then show ?thesis by (simp add: find_loop_None)
  qed
  from a b find_example show ?thesis by blast
qed

theorem find_timestamp_match_leftmost_witness:
  "leftmost_in timestamp_formats ''1755921813 test line'' (0, 10)
   \<and> (\<exists>f \<in> set timestamp_formats. entry_match f ''1755921813 test line'' \<noteq> None)"
proof -
  have "find_timestamp_match (Some ''1755921813 test line'') True True \<noteq> Inl TS_ERROR_TIME_PARSE"
    by (simp add: find_example)
  then show ?thesis
    using find_timestamp_match_leftmost [of "''1755921813 test line''" "(0, 10)"]
    by (simp add: find_example)
qed

section \<open>Properties of the pattern table\<close>

lemma table_split:
  "timestamp_formats = take 6 timestamp_formats @ (timestamp_formats ! 6) # [timestamp_formats ! 7]"
  by (simp add: timestamp_formats_def)

text \<open>
  C3, amended. The table has eight entries, not seven, in the order syslog, ISO-8601,
  RFC, lastlog, short, short-with-year, Unix fractional epoch, Unix plain epoch. The
  fractional entry stands before the plain entry, so when both match from the same
  offset and every calendar entry that matches starts later, the span that
  \<open>find_timestamp_match\<close> returns is the fractional entry's.
\<close>

theorem pattern_table_eight_entries:
  "length timestamp_formats = 8
   \<and> map name timestamp_formats =
       [''syslog'', ''ISO-8601'', ''RFC'', ''lastlog'', ''short'', ''short_with_year'',
        ''unix_fractional'', ''unix_plain'']
   \<and> (entry_match (timestamp_formats ! 6) line = Some (s, e)
        \<and> entry_match (timestamp_formats ! 7) line = Some (s, e')
        \<and> (\<forall>g \<in> set (take 6 timestamp_formats).
              \<forall>sp. entry_match g line = Some sp \<longrightarrow> s < fst sp)
        \<longrightarrow> find_timestamp_match (Some line) True True = Inr (s, e))"
proof -
  have n: "length timestamp_formats = 8"
    by (simp add: timestamp_formats_def)
  have m: "map name timestamp_formats =
       [''syslog'', ''ISO-8601'', ''RFC'', ''lastlog'', ''short'', ''short_with_year'',
        ''unix_fractional'', ''unix_plain'']"
    by (simp add: timestamp_formats_def)
  have f: "find_timestamp_match (Some line) True True = Inr (s, e)"
    if a: "entry_match (timestamp_formats ! 6) line = Some (s, e)"
      and b: "entry_match (timestamp_formats ! 7) line = Some (s, e')"
      and c: "\<forall>g \<in> set (take 6 timestamp_formats).
              \<forall>sp. entry_match g line = Some sp \<longrightarrow> s < fst sp"
  proof -
    have "\<forall>g \<in> set [timestamp_formats ! 7]. \<forall>sp. entry_match g line = Some sp \<longrightarrow> s \<le> fst sp"
      using b by simp
    with a c table_split have "leftmost_in timestamp_formats line (s, e)"
      unfolding leftmost_in_def fst_conv by blast
    then have "find_loop timestamp_formats line None = Some (s, e)"
      by (simp add: find_loop_leftmost)
    then show ?thesis by (simp add: find_timestamp_match_def)
  qed
  from n m f show ?thesis by blast
qed

lemma fractional_example_matches:
  "entry_match (timestamp_formats ! 6) ''1755921813.123456 x'' = Some (0, 17)
   \<and> entry_match (timestamp_formats ! 7) ''1755921813.123456 x'' = Some (0, 10)
   \<and> list_all (\<lambda>g. entry_match g ''1755921813.123456 x'' = None) (take 6 timestamp_formats)"
  by code_simp

theorem pattern_table_eight_entries_witness:
  "entry_match (timestamp_formats ! 6) ''1755921813.123456 x'' = Some (0, 17)
   \<and> entry_match (timestamp_formats ! 7) ''1755921813.123456 x'' = Some (0, 10)
   \<and> find_timestamp_match (Some ''1755921813.123456 x'') True True = Inr (0, 17)"
proof -
  have "\<forall>g \<in> set (take 6 timestamp_formats).
          \<forall>sp. entry_match g ''1755921813.123456 x'' = Some sp \<longrightarrow> 0 < fst sp"
    using fractional_example_matches by (simp add: list_all_iff)
  then show ?thesis
    using pattern_table_eight_entries [of "''1755921813.123456 x''" 0 17 10]
      fractional_example_matches
    by blast
qed

theorem pattern_table_not_seven: "length timestamp_formats \<noteq> 7"
  by (simp add: timestamp_formats_def)

section \<open>Properties of detect-and-parse\<close>

lemma parse_loop_step:
  "parse_loop env (f # fs) line =
     (case entry_attempt env f line of
        Some t \<Rightarrow> Inr t
      | None \<Rightarrow> parse_loop env fs line)"
  by (auto simp: entry_attempt_def entry_match_def parse_match_def Let_def
      split: option.splits prod.splits sum.splits)

lemma first_parse_in_Cons_Some:
  assumes "entry_attempt env f line = Some u"
  shows "first_parse_in env (f # fs) line t \<longleftrightarrow> t = u"
proof
  assume "first_parse_in env (f # fs) line t"
  then obtain pre g post where d: "f # fs = pre @ g # post" "entry_attempt env g line = Some t"
    "\<forall>h \<in> set pre. entry_attempt env h line = None"
    unfolding first_parse_in_def by blast
  show "t = u"
  proof (cases pre)
    case Nil
    with d(1) have "g = f" by simp
    with d(2) assms show ?thesis by simp
  next
    case (Cons h hs)
    with d(1) have "f \<in> set pre" by simp
    with d(3) assms show ?thesis by simp
  qed
next
  assume "t = u"
  moreover have "f # fs = [] @ f # fs" by simp
  ultimately show "first_parse_in env (f # fs) line t"
    unfolding first_parse_in_def using assms by fastforce
qed

lemma first_parse_in_Cons_None:
  assumes "entry_attempt env f line = None"
  shows "first_parse_in env (f # fs) line t \<longleftrightarrow> first_parse_in env fs line t"
proof
  assume "first_parse_in env (f # fs) line t"
  then obtain pre g post where d: "f # fs = pre @ g # post" "entry_attempt env g line = Some t"
    "\<forall>h \<in> set pre. entry_attempt env h line = None"
    unfolding first_parse_in_def by blast
  show "first_parse_in env fs line t"
  proof (cases pre)
    case Nil
    with d(1) have "g = f" by simp
    with d(2) assms show ?thesis by simp
  next
    case (Cons h hs)
    with d(1) have "fs = hs @ g # post" by simp
    moreover have "\<forall>k \<in> set hs. entry_attempt env k line = None" using d(3) Cons by simp
    ultimately show ?thesis
      unfolding first_parse_in_def using d(2) by blast
  qed
next
  assume "first_parse_in env fs line t"
  then obtain pre g post where d: "fs = pre @ g # post" "entry_attempt env g line = Some t"
    "\<forall>h \<in> set pre. entry_attempt env h line = None"
    unfolding first_parse_in_def by blast
  have "f # fs = (f # pre) @ g # post" using d(1) by simp
  moreover have "\<forall>h \<in> set (f # pre). entry_attempt env h line = None"
    using d(3) assms by simp
  ultimately show "first_parse_in env (f # fs) line t"
    unfolding first_parse_in_def using d(2) by blast
qed

lemma parse_loop_Inr:
  "parse_loop env fs line = Inr t \<longleftrightarrow> first_parse_in env fs line t"
proof (induction fs)
  case Nil
  show ?case by (simp add: first_parse_in_def)
next
  case (Cons f fs)
  show ?case
  proof (cases "entry_attempt env f line")
    case None
    then show ?thesis
      using Cons.IH by (simp add: parse_loop_step first_parse_in_Cons_None del: parse_loop.simps)
  next
    case (Some u)
    then show ?thesis
      by (auto simp: parse_loop_step first_parse_in_Cons_Some simp del: parse_loop.simps)
  qed
qed

lemma parse_loop_Inl:
  "parse_loop env fs line = Inl e \<longleftrightarrow>
     e = TS_ERROR_TIME_PARSE \<and> (\<forall>f \<in> set fs. entry_attempt env f line = None)"
proof (induction fs)
  case Nil
  show ?case by auto
next
  case (Cons f fs)
  show ?case
    using Cons.IH
    by (cases "entry_attempt env f line") (simp_all add: parse_loop_step del: parse_loop.simps)
qed

lemma later_entry_wins_example:
  "parse_timestamp_in_line demo_libc (Some ''1755921813 Dec 22 22:25:23 x'') True = Inr 1701901523
   \<and> entry_match (timestamp_formats ! 0) ''1755921813 Dec 22 22:25:23 x'' = Some (11, 26)
   \<and> entry_match (timestamp_formats ! 7) ''1755921813 Dec 22 22:25:23 x'' = Some (0, 10)"
  by code_simp

text \<open>
  C1, amended. \<open>parse_timestamp_in_line\<close> walks the table in its order and returns
  the time of the first entry that matches the line with a match shorter than
  \<open>MAX_TIMESTAMP_LENGTH\<close> (128 bytes) and whose parser succeeds on the match,
  wherever the matches of later entries start; when no entry does, it fails with the
  time-parse code, and it fails with no other code on a line that is present; a null
  line gives the invalid-argument code.
\<close>

theorem parse_timestamp_in_line_first_success:
  "(parse_timestamp_in_line env (Some line) True = Inr t
      \<longleftrightarrow> first_parse_in env timestamp_formats line t)
   \<and> (parse_timestamp_in_line env (Some line) True = Inl e
      \<longleftrightarrow> e = TS_ERROR_TIME_PARSE
          \<and> (\<forall>f \<in> set timestamp_formats. entry_attempt env f line = None))
   \<and> parse_timestamp_in_line env None result = Inl TS_ERROR_INVALID_ARGUMENT"
  by (simp add: parse_timestamp_in_line_def parse_loop_Inr parse_loop_Inl)

theorem parse_timestamp_in_line_first_success_witness:
  "first_parse_in demo_libc timestamp_formats ''1755921813 Dec 22 22:25:23 x'' 1701901523
   \<and> entry_match (timestamp_formats ! 0) ''1755921813 Dec 22 22:25:23 x'' = Some (11, 26)
   \<and> entry_match (timestamp_formats ! 7) ''1755921813 Dec 22 22:25:23 x'' = Some (0, 10)
   \<and> (\<exists>f \<in> set timestamp_formats.
        entry_attempt demo_libc f ''1755921813 Dec 22 22:25:23 x'' \<noteq> None)"
proof -
  have "parse_timestamp_in_line demo_libc (Some ''1755921813 Dec 22 22:25:23 x'') True
          \<noteq> Inl TS_ERROR_TIME_PARSE"
    using later_entry_wins_example by simp
  then show ?thesis
    using parse_timestamp_in_line_first_success
      [of demo_libc "''1755921813 Dec 22 22:25:23 x''" 1701901523 TS_ERROR_TIME_PARSE]
      later_entry_wins_example
    by simp
qed

section \<open>Properties of the numeric parsers\<close>

lemma length_takeWhile_stop:
  assumes "i < length xs" and "\<not> P (xs ! i)"
  shows "length (takeWhile P xs) \<le> i"
proof (rule ccontr)
  assume "\<not> length (takeWhile P xs) \<le> i"
  then have lt: "i < length (takeWhile P xs)" by simp
  then have "takeWhile P xs ! i = xs ! i" by (rule takeWhile_nth)
  moreover have "takeWhile P xs ! i \<in> set (takeWhile P xs)" using lt by simp
  ultimately have "P (xs ! i)" by (auto dest: set_takeWhileD)
  with assms(2) show False by simp
qed

lemma strtoul10_end_le: "snd (snd (strtoul10 s)) \<le> length s"
proof -
  define s1 where "s1 = dropWhile isspace s"
  define sg where "sg = (case s1 of [] \<Rightarrow> 0 | c # _ \<Rightarrow>
      if c = CHR ''+'' \<or> c = CHR ''-'' then 1 else (0::nat))"
  have a: "length (takeWhile isspace s) + length s1 = length s"
    unfolding s1_def by (metis length_append takeWhile_dropWhile_id)
  have b: "sg \<le> length s1"
    unfolding sg_def by (cases s1) auto
  have c: "length (takeWhile isdigit (drop sg s1)) \<le> length s1 - sg"
    using length_takeWhile_le [of isdigit "drop sg s1"] by simp
  have "length (takeWhile isspace s) + sg + length (takeWhile isdigit (drop sg s1)) \<le> length s"
    using a b c by linarith
  then show ?thesis
    unfolding strtoul10_def Let_def s1_def [symmetric] sg_def [symmetric]
    by (simp split: if_splits)
qed

lemma strchr_Some:
  assumes "strchr s c = Some i"
  shows "i < length s \<and> s ! i = c"
proof -
  from assms have m: "c \<in> set s" and i: "i = length (takeWhile (\<lambda>x. x \<noteq> c) s)"
    by (auto simp: strchr_def split: if_splits)
  from m obtain j where j: "j < length s" "s ! j = c"
    by (auto simp: in_set_conv_nth)
  have "length (takeWhile (\<lambda>x. x \<noteq> c) s) \<le> j"
    by (rule length_takeWhile_stop) (simp_all add: j)
  with j(1) have lt: "length (takeWhile (\<lambda>x. x \<noteq> c) s) < length s" by simp
  from nth_length_takeWhile [OF lt] have "s ! length (takeWhile (\<lambda>x. x \<noteq> c) s) = c" by simp
  with lt i show ?thesis by simp
qed

text \<open>
  C4. What the fractional parser does with every text, the specification's example
  \<open>"1755921813.123456"\<close> included: the dot is written back before the byte at
  \<open>endptr\<close> is read, and \<open>endptr\<close> never lies beyond the dot, so that byte is never
  NUL and the parser answers the time-parse code for every C string. The
  specification and the repository's test \<open>test_parse_unix_timestamp_fractional\<close>
  expect 1755921813 for the example.
\<close>

theorem parse_unix_timestamp_fractional_never_succeeds:
  assumes "CHR 0x00 \<notin> set s"
  shows "parse_unix_timestamp_fractional (Some s) True = Inl TS_ERROR_TIME_PARSE"
proof (cases "strchr s CHR ''.''")
  case None
  then show ?thesis by (simp add: parse_unix_timestamp_fractional_def)
next
  case (Some dot_pos)
  from strchr_Some [OF Some] have d: "dot_pos < length s" "s ! dot_pos = CHR ''.''" by simp_all
  define buf where "buf = s[dot_pos := CHR 0x00]"
  obtain secs erange endptr where r: "strtoul10 (cstr buf) = (secs, erange, endptr)"
    by (cases "strtoul10 (cstr buf)") auto
  have "length (cstr buf) \<le> dot_pos"
    unfolding cstr_def by (rule length_takeWhile_stop) (simp_all add: buf_def d(1))
  moreover have "endptr \<le> length (cstr buf)"
    using strtoul10_end_le [of "cstr buf"] r by simp
  ultimately have e: "endptr < length s" using d(1) by simp
  have "buf[dot_pos := CHR ''.''] = s"
    unfolding buf_def using d(2) by (metis list_update_id list_update_overwrite)
  moreover have "s ! endptr \<noteq> CHR 0x00"
    using e assms by (metis nth_mem)
  ultimately have "c_at (buf[dot_pos := CHR ''.'']) endptr \<noteq> CHR 0x00"
    using e by (simp add: c_at_def)
  then show ?thesis
    using Some r by (simp add: parse_unix_timestamp_fractional_def buf_def [symmetric])
qed

theorem parse_unix_timestamp_fractional_never_succeeds_witness:
  "CHR 0x00 \<notin> set ''1755921813.123456''
   \<and> parse_unix_timestamp_fractional (Some ''1755921813.123456'') True = Inl TS_ERROR_TIME_PARSE"
proof -
  have h: "CHR 0x00 \<notin> set ''1755921813.123456''" by simp
  show ?thesis
    using h parse_unix_timestamp_fractional_never_succeeds [OF h] by simp
qed

section \<open>Properties of the calendar parser\<close>

text \<open>
  C5. After a calendar parse has computed its time \<open>t1\<close>, and the clock could be read:
  if \<open>t1\<close> lies more than 30 days after now, the year of the normalised structure is
  decremented by one, \<open>mktime\<close> runs once more, and its answer \<open>t2\<close> is the result
  whatever it is, also when \<open>t2\<close> still lies more than 30 days after now (a \<open>t2\<close> of
  \<open>-1\<close> is the time-parse failure); otherwise the result is \<open>t1\<close>.
\<close>

theorem parse_timestamp_strptime_corrects_once:
  assumes "c_strptime env s f tm_zero = Some parsed"
    and "default_fields env parsed = Inr tm_info"
    and "c_mktime env tm_info = (t1, tm1)"
    and "t1 \<noteq> - 1"
    and "c_time env \<noteq> - 1"
    and "c_mktime env (tm1\<lparr>tm_year := tm_year tm1 - 1\<rparr>) = (t2, tm2)"
  shows "parse_timestamp_strptime env (Some s) (Some f) True =
           (if c_time env + 30 * 86400 < t1
            then (if t2 = - 1 then Inl TS_ERROR_TIME_PARSE else Inr t2)
            else Inr t1)
         \<and> (c_time env + 30 * 86400 < t1 \<and> c_time env + 30 * 86400 < t2 \<and> t2 \<noteq> - 1
              \<longrightarrow> parse_timestamp_strptime env (Some s) (Some f) True = Inr t2)"
  using assms
  by (simp add: parse_timestamp_strptime_def SECONDS_PER_DAY_def FUTURE_THRESHOLD_DAYS_def)

lemma demo_future_example:
  "c_strptime demo_libc ''2030-12-22T22:25:23'' ''%Y-%m-%dT%H:%M:%S'' tm_zero
     = Some (tm_zero\<lparr>tm_sec := 23, tm_min := 25, tm_hour := 22, tm_mday := 22, tm_mon := 11,
                     tm_year := 130\<rparr>)
   \<and> default_fields demo_libc
        (tm_zero\<lparr>tm_sec := 23, tm_min := 25, tm_hour := 22, tm_mday := 22, tm_mon := 11,
                 tm_year := 130\<rparr>)
     = Inr (tm_zero\<lparr>tm_sec := 23, tm_min := 25, tm_hour := 22, tm_mday := 22, tm_mon := 11,
                    tm_year := 130\<rparr>)
   \<and> c_mktime demo_libc
        (tm_zero\<lparr>tm_sec := 23, tm_min := 25, tm_hour := 22, tm_mday := 22, tm_mon := 11,
                 tm_year := 130\<rparr>)
     = (1922653523, tm_zero\<lparr>tm_sec := 23, tm_min := 25, tm_hour := 22, tm_mday := 22,
                             tm_mon := 11, tm_year := 130\<rparr>)
   \<and> c_mktime demo_libc
        ((tm_zero\<lparr>tm_sec := 23, tm_min := 25, tm_hour := 22, tm_mday := 22, tm_mon := 11,
                  tm_year := 130\<rparr>)\<lparr>tm_year := tm_year (tm_zero\<lparr>tm_sec := 23, tm_min := 25,
                  tm_hour := 22, tm_mday := 22, tm_mon := 11, tm_year := 130\<rparr>) - 1\<rparr>)
     = (1891117523, tm_zero\<lparr>tm_sec := 23, tm_min := 25, tm_hour := 22, tm_mday := 22,
                             tm_mon := 11, tm_year := 129\<rparr>)
   \<and> c_time demo_libc = 1700000000"
  by (simp add: demo_libc_def tm_zero_def default_fields_def)

theorem parse_timestamp_strptime_corrects_once_witness:
  "parse_timestamp_strptime demo_libc (Some ''2030-12-22T22:25:23'')
       (Some ''%Y-%m-%dT%H:%M:%S'') True = Inr 1891117523
   \<and> c_time demo_libc + 30 * 86400 < 1891117523"
proof -
  note e = demo_future_example
  have "parse_timestamp_strptime demo_libc (Some ''2030-12-22T22:25:23'')
       (Some ''%Y-%m-%dT%H:%M:%S'') True =
           (if c_time demo_libc + 30 * 86400 < 1922653523
            then (if (1891117523::int) = - 1 then Inl TS_ERROR_TIME_PARSE else Inr 1891117523)
            else Inr 1922653523)"
    using parse_timestamp_strptime_corrects_once
      [of demo_libc "''2030-12-22T22:25:23''" "''%Y-%m-%dT%H:%M:%S''" _ _ 1922653523 _ 1891117523,
       OF e [THEN conjunct1] e [THEN conjunct2, THEN conjunct1]
          e [THEN conjunct2, THEN conjunct2, THEN conjunct1] _ _
          e [THEN conjunct2, THEN conjunct2, THEN conjunct2, THEN conjunct1]]
      e
    by simp
  then show ?thesis using e by simp
qed

section \<open>Properties of the safe text primitives\<close>

lemma strnlen_le: "strnlen d n \<le> n"
  unfolding strnlen_def using length_takeWhile_le [of _ "map d [0..<n]"] by simp

lemma strnlen_buf_string: "strnlen d n = length (buf_string d n)"
  by (simp add: strnlen_def buf_string_def)

lemma buf_string_nth: "i < length (buf_string d n) \<Longrightarrow> buf_string d n ! i = d i"
proof -
  assume a: "i < length (buf_string d n)"
  have "length (buf_string d n) \<le> n"
    using strnlen_le [of d n] by (simp add: strnlen_buf_string)
  with a have "i < n" by simp
  from a have "buf_string d n ! i = map d [0..<n] ! i"
    unfolding buf_string_def by (rule takeWhile_nth)
  with \<open>i < n\<close> show ?thesis by simp
qed

lemma buf_string_no_nul: "CHR 0x00 \<notin> set (buf_string d n)"
  unfolding buf_string_def by (auto dest: set_takeWhileD)

lemma buf_string_eq:
  assumes "\<forall>i < length bs. d i = bs ! i" and "d (length bs) = CHR 0x00"
    and "CHR 0x00 \<notin> set bs" and "length bs < n"
  shows "buf_string d n = bs"
proof -
  have split: "[0..<n] = [0..<length bs] @ length bs # [Suc (length bs)..<n]"
    using assms(4) by (metis less_imp_le_nat upt_add_eq_append upt_conv_Cons le_add_diff_inverse zero_le)
  have m: "map d [0..<length bs] = bs"
    using assms(1) by (intro nth_equalityI) simp_all
  have "map d [0..<n] = bs @ CHR 0x00 # map d [Suc (length bs)..<n]"
    using split m assms(2) by (metis list.simps(9) map_append)
  moreover have "\<forall>x \<in> set bs. x \<noteq> CHR 0x00" using assms(3) by auto
  ultimately show ?thesis
    unfolding buf_string_def by (simp add: takeWhile_append2)
qed

lemma safe_strcat_fits:
  assumes "strnlen d n + length s < n"
  shows "safe_strcat (Some d) n (Some s) = (TS_SUCCESS, Some (memcpy d (strnlen d n) (s @ [CHR 0x00])))"
  using assms by (simp add: safe_strcat_def Let_def)

lemma safe_strcat_overflow:
  assumes "\<not> strnlen d n + length s < n"
  shows "safe_strcat (Some d) n (Some s) = (TS_ERROR_BUFFER_OVERFLOW, Some d)"
  using assms by (simp add: safe_strcat_def Let_def)

lemma strcat_result_string:
  assumes "strnlen d n + length s < n" and "CHR 0x00 \<notin> set s"
  shows "buf_string (memcpy d (strnlen d n) (s @ [CHR 0x00])) n = buf_string d n @ s"
proof (rule buf_string_eq)
  let ?d' = "memcpy d (strnlen d n) (s @ [CHR 0x00])"
  let ?r = "buf_string d n"
  have l: "strnlen d n = length ?r" by (rule strnlen_buf_string)
  show "\<forall>i < length (?r @ s). ?d' i = (?r @ s) ! i"
  proof (intro allI impI)
    fix i assume i: "i < length (?r @ s)"
    show "?d' i = (?r @ s) ! i"
    proof (cases "i < length ?r")
      case True
      then show ?thesis by (simp add: memcpy_def l nth_append buf_string_nth)
    next
      case False
      with i have "i - length ?r < length s" "length ?r \<le> i"
        "i < length ?r + length (s @ [CHR 0x00])" by simp_all
      then show ?thesis by (simp add: memcpy_def l nth_append)
    qed
  qed
  show "?d' (length (?r @ s)) = CHR 0x00"
    by (simp add: memcpy_def l nth_append)
  show "CHR 0x00 \<notin> set (?r @ s)"
    using assms(2) buf_string_no_nul [of d n] by simp
  show "length (?r @ s) < n"
    using assms(1) by (simp add: l)
qed

lemma snprintf_result_string:
  assumes "length out < n" and "CHR 0x00 \<notin> set out"
  shows "buf_string (memcpy d 0 (take (n - 1) out @ [CHR 0x00])) n = out"
proof (rule buf_string_eq)
  have t: "take (n - 1) out = out" using assms(1) by simp
  show "\<forall>i < length out. memcpy d 0 (take (n - 1) out @ [CHR 0x00]) i = out ! i"
    unfolding t by (simp add: memcpy_def nth_append)
  show "memcpy d 0 (take (n - 1) out @ [CHR 0x00]) (length out) = CHR 0x00"
    unfolding t by (simp add: memcpy_def nth_append)
  show "CHR 0x00 \<notin> set out" by (rule assms(2))
  show "length out < n" by (rule assms(1))
qed

lemma safe_snprintf_eq:
  "safe_snprintf (Some d) n (Some f) args =
     (if length (printf_text f args) < n then TS_SUCCESS else TS_ERROR_BUFFER_OVERFLOW,
      Some (if n = 0 then d else memcpy d 0 (take (n - 1) (printf_text f args) @ [CHR 0x00])))"
  by (simp add: safe_snprintf_def vsnprintf_def Let_def)

text \<open>
  The two calls that extend the array \<open>result\<close> in \<open>format_timestamp_with_subsecond\<close>,
  modelled on its content by \<open>strcat_append\<close> and \<open>snprintf_append\<close>, agree with the
  primitives on the bytes: \<open>d\<close> is the array, \<open>e\<close> the memory at
  \<open>result + strlen(result)\<close>.
\<close>

lemma strcat_append_refines:
  assumes "buf_string d n = r" and "CHR 0x00 \<notin> set src"
  shows "case strcat_append r n src of
           Inr r' \<Rightarrow> (\<exists>d'. safe_strcat (Some d) n (Some src) = (TS_SUCCESS, Some d')
                        \<and> buf_string d' n = r')
         | Inl c \<Rightarrow> safe_strcat (Some d) n (Some src) = (c, Some d)"
proof (cases "strnlen d n + length src < n")
  case True
  then have "strcat_append r n src = Inr (r @ src)"
    using assms(1) by (simp add: strcat_append_def strnlen_buf_string)
  then show ?thesis
    using safe_strcat_fits [OF True] strcat_result_string [OF True assms(2)] assms(1) by simp
next
  case False
  then have "strcat_append r n src = Inl TS_ERROR_BUFFER_OVERFLOW"
    using assms(1) by (simp add: strcat_append_def strnlen_buf_string)
  then show ?thesis using safe_strcat_overflow [OF False] by simp
qed

lemma snprintf_append_refines:
  assumes "length r < cap" and "CHR 0x00 \<notin> set (printf_text f args)"
  shows "case snprintf_append r cap f args of
           Inr r' \<Rightarrow> (\<exists>e'. safe_snprintf (Some e) (cap - length r) (Some f) args
                               = (TS_SUCCESS, Some e')
                        \<and> r' = r @ buf_string e' (cap - length r))
         | Inl c \<Rightarrow> fst (safe_snprintf (Some e) (cap - length r) (Some f) args) = c"
proof (cases "length (printf_text f args) < cap - length r")
  case True
  then have "snprintf_append r cap f args = Inr (r @ printf_text f args)"
    by (simp add: snprintf_append_def Let_def)
  moreover have "cap - length r \<noteq> 0" using assms(1) by simp
  ultimately show ?thesis
    using True snprintf_result_string [OF True assms(2), of e]
    by (simp add: safe_snprintf_eq)
next
  case False
  then have "snprintf_append r cap f args = Inl TS_ERROR_BUFFER_OVERFLOW"
    by (simp add: snprintf_append_def Let_def)
  then show ?thesis using False by (simp add: safe_snprintf_eq)
qed

text \<open>
  C9. Neither primitive writes at or beyond the capacity \<open>n\<close> it is given: a null
  destination or source gives the invalid-argument code; \<open>safe_strcat\<close> succeeds
  exactly when the bounded length of the destination plus the length of the source
  is below \<open>n\<close>, leaves the bytes before that length and from \<open>n\<close> on as they were,
  leaves the whole buffer as it was when it reports overflow, and on success the
  buffer holds the old string followed by the source; \<open>safe_snprintf\<close> succeeds
  exactly when the formatted text is shorter than \<open>n\<close>, reports overflow otherwise,
  leaves the bytes from \<open>n\<close> on as they were, and on success the buffer holds the
  text.
\<close>

theorem safe_primitives_within_capacity:
  "safe_strcat None n src = (TS_ERROR_INVALID_ARGUMENT, None)
   \<and> safe_strcat (Some d) n None = (TS_ERROR_INVALID_ARGUMENT, Some d)
   \<and> safe_snprintf None n fmt args = (TS_ERROR_INVALID_ARGUMENT, None)
   \<and> safe_snprintf (Some d) n None args = (TS_ERROR_INVALID_ARGUMENT, Some d)
   \<and> (\<exists>d'. safe_strcat (Some d) n (Some s) =
              (if strnlen d n + length s < n then TS_SUCCESS else TS_ERROR_BUFFER_OVERFLOW, Some d')
          \<and> (\<forall>i. n \<le> i \<or> i < strnlen d n \<longrightarrow> d' i = d i)
          \<and> (\<not> strnlen d n + length s < n \<longrightarrow> d' = d)
          \<and> (strnlen d n + length s < n \<and> CHR 0x00 \<notin> set s
                \<longrightarrow> buf_string d' n = buf_string d n @ s))
   \<and> (\<exists>d'. safe_snprintf (Some d) n (Some f) args =
              (if length (printf_text f args) < n then TS_SUCCESS else TS_ERROR_BUFFER_OVERFLOW,
               Some d')
          \<and> (\<forall>i. n \<le> i \<longrightarrow> d' i = d i)
          \<and> (length (printf_text f args) < n \<and> CHR 0x00 \<notin> set (printf_text f args)
                \<longrightarrow> buf_string d' n = printf_text f args))"
proof -
  have a: "\<exists>d'. safe_strcat (Some d) n (Some s) =
              (if strnlen d n + length s < n then TS_SUCCESS else TS_ERROR_BUFFER_OVERFLOW, Some d')
          \<and> (\<forall>i. n \<le> i \<or> i < strnlen d n \<longrightarrow> d' i = d i)
          \<and> (\<not> strnlen d n + length s < n \<longrightarrow> d' = d)
          \<and> (strnlen d n + length s < n \<and> CHR 0x00 \<notin> set s
                \<longrightarrow> buf_string d' n = buf_string d n @ s)"
  proof (cases "strnlen d n + length s < n")
    case True
    have "\<forall>i. n \<le> i \<or> i < strnlen d n \<longrightarrow> memcpy d (strnlen d n) (s @ [CHR 0x00]) i = d i"
      using True by (auto simp: memcpy_def)
    then show ?thesis
      using True safe_strcat_fits [OF True] strcat_result_string [of d n s] by auto
  next
    case False
    then show ?thesis using safe_strcat_overflow [OF False] by auto
  qed
  have b: "\<exists>d'. safe_snprintf (Some d) n (Some f) args =
              (if length (printf_text f args) < n then TS_SUCCESS else TS_ERROR_BUFFER_OVERFLOW,
               Some d')
          \<and> (\<forall>i. n \<le> i \<longrightarrow> d' i = d i)
          \<and> (length (printf_text f args) < n \<and> CHR 0x00 \<notin> set (printf_text f args)
                \<longrightarrow> buf_string d' n = printf_text f args)"
  proof (cases "n = 0")
    case True
    then show ?thesis by (simp add: safe_snprintf_eq)
  next
    case False
    have "\<forall>i. n \<le> i \<longrightarrow> memcpy d 0 (take (n - 1) (printf_text f args) @ [CHR 0x00]) i = d i"
      using False by (auto simp: memcpy_def)
    moreover have "length (printf_text f args) < n \<and> CHR 0x00 \<notin> set (printf_text f args)
        \<longrightarrow> buf_string (memcpy d 0 (take (n - 1) (printf_text f args) @ [CHR 0x00])) n
              = printf_text f args"
      using snprintf_result_string [of "printf_text f args" n d] by blast
    moreover have "safe_snprintf (Some d) n (Some f) args =
       (if length (printf_text f args) < n then TS_SUCCESS else TS_ERROR_BUFFER_OVERFLOW,
        Some (memcpy d 0 (take (n - 1) (printf_text f args) @ [CHR 0x00])))"
      using False by (simp add: safe_snprintf_eq)
    ultimately show ?thesis by blast
  qed
  have c: "safe_strcat None n src = (TS_ERROR_INVALID_ARGUMENT, None)
   \<and> safe_strcat (Some d) n None = (TS_ERROR_INVALID_ARGUMENT, Some d)
   \<and> safe_snprintf None n fmt args = (TS_ERROR_INVALID_ARGUMENT, None)
   \<and> safe_snprintf (Some d) n None args = (TS_ERROR_INVALID_ARGUMENT, Some d)"
    by (simp add: safe_strcat_def safe_snprintf_def)
  from a b c show ?thesis by blast
qed

lemma demo_strnlen: "strnlen demo_buf 8 = 2" "strnlen demo_buf 20 = 2"
  by code_simp+

lemma demo_buf_string: "buf_string demo_buf 20 = ''Hi''"
  by code_simp


lemma demo_nul: "CHR 0x00 \<notin> set '' there''" by simp

theorem safe_primitives_within_capacity_witness:
  "(\<exists>d'. safe_strcat (Some demo_buf) 8 (Some '' there'') = (TS_ERROR_BUFFER_OVERFLOW, Some d')
        \<and> d' = demo_buf)
   \<and> (\<exists>d'. safe_strcat (Some demo_buf) 20 (Some '' there'') = (TS_SUCCESS, Some d')
        \<and> buf_string d' 20 = ''Hi there'' \<and> d' 20 = demo_buf 20 \<and> d' 0 = demo_buf 0)"
proof -
  note t8 = safe_primitives_within_capacity [where n = 8 and d = demo_buf and s = "'' there''",
      THEN conjunct2, THEN conjunct2, THEN conjunct2, THEN conjunct2, THEN conjunct1]
  note t20 = safe_primitives_within_capacity [where n = 20 and d = demo_buf and s = "'' there''",
      THEN conjunct2, THEN conjunct2, THEN conjunct2, THEN conjunct2, THEN conjunct1]
  from t8 obtain d1 where
    "safe_strcat (Some demo_buf) 8 (Some '' there'') =
       (if strnlen demo_buf 8 + length '' there'' < 8 then TS_SUCCESS
        else TS_ERROR_BUFFER_OVERFLOW, Some d1)"
    "\<not> strnlen demo_buf 8 + length '' there'' < 8 \<longrightarrow> d1 = demo_buf"
    by blast
  then have a: "\<exists>d'. safe_strcat (Some demo_buf) 8 (Some '' there'')
        = (TS_ERROR_BUFFER_OVERFLOW, Some d') \<and> d' = demo_buf"
    by (simp add: demo_strnlen)
  from t20 obtain d2 where
    "safe_strcat (Some demo_buf) 20 (Some '' there'') =
       (if strnlen demo_buf 20 + length '' there'' < 20 then TS_SUCCESS
        else TS_ERROR_BUFFER_OVERFLOW, Some d2)"
    "\<forall>i. 20 \<le> i \<or> i < strnlen demo_buf 20 \<longrightarrow> d2 i = demo_buf i"
    "strnlen demo_buf 20 + length '' there'' < 20 \<and> CHR 0x00 \<notin> set '' there''
       \<longrightarrow> buf_string d2 20 = buf_string demo_buf 20 @ '' there''"
    by blast
  then have b: "\<exists>d'. safe_strcat (Some demo_buf) 20 (Some '' there'') = (TS_SUCCESS, Some d')
        \<and> buf_string d' 20 = ''Hi there'' \<and> d' 20 = demo_buf 20 \<and> d' 0 = demo_buf 0"
    by (simp add: demo_strnlen demo_buf_string)
  from a b show ?thesis by blast
qed

section \<open>Properties of the line rewriter\<close>

lemma match_lengths_le: "l \<in> set (match_lengths ps s) \<Longrightarrow> l \<le> length s"
proof (induction ps arbitrary: s l)
  case Nil
  then show ?case by simp
next
  case (Cons p ps)
  define n where "n = length (takeWhile (accepts (fst p)) s)"
  define m where "m = (case snd (snd p) of None \<Rightarrow> n | Some h \<Rightarrow> min n h)"
  have nl: "n \<le> length s" unfolding n_def by (rule length_takeWhile_le)
  have mn: "m \<le> n" unfolding m_def by (simp split: option.splits)
  from Cons.prems have "\<exists>x \<in> {fst (snd p)..<Suc m}.
      l \<in> (+) x ` set (match_lengths ps (drop x s))"
    by (simp add: Let_def n_def [symmetric] m_def [symmetric] del: upt_Suc)
  then obtain k where k0: "k \<in> {fst (snd p)..<Suc m}"
      "l \<in> (+) k ` set (match_lengths ps (drop k s))"
    by blast
  from k0(2) obtain l' where l': "l' \<in> set (match_lengths ps (drop k s))" "l = k + l'"
    by blast
  from k0(1) have "k \<le> m" by simp
  note k = this l'
  from Cons.IH [OF k(2)] have "l' \<le> length s - k" by simp
  with k(1) k(3) mn nl show ?case by simp
qed

lemma fold_max_in: "fold max ls (l::nat) \<in> set (l # ls)"
proof (induction ls arbitrary: l)
  case Nil
  show ?case by simp
next
  case (Cons a ls)
  from Cons.IH [of "max a l"] show ?case by (auto simp: max_def split: if_splits)
qed

lemma regexec_from_bounds:
  "regexec_from ps i s = Some (so, eo) \<Longrightarrow> i \<le> so \<and> so \<le> eo \<and> eo \<le> i + length s"
proof (induction s arbitrary: i)
  case Nil
  then obtain l ls where m: "match_lengths ps [] = l # ls" "so = i" "eo = i + fold max ls l"
    by (auto split: list.splits)
  have "fold max ls l \<in> set (match_lengths ps [])" using fold_max_in [of ls l] m(1) by simp
  from match_lengths_le [OF this] m show ?case by simp
next
  case (Cons c cs)
  show ?case
  proof (cases "match_lengths ps (c # cs)")
    case Nil
    with Cons.prems have "regexec_from ps (Suc i) cs = Some (so, eo)" by simp
    from Cons.IH [OF this] show ?thesis by simp
  next
    case (Cons l ls)
    with Cons.prems have m: "so = i" "eo = i + fold max ls l" by auto
    have "fold max ls l \<in> set (match_lengths ps (c # cs))" using fold_max_in [of ls l] Cons by simp
    from match_lengths_le [OF this] m show ?thesis by simp
  qed
qed

lemma entry_match_bounds:
  "entry_match f line = Some (so, eo) \<Longrightarrow> so \<le> eo \<and> eo \<le> length line"
  using regexec_from_bounds [of _ 0 line so eo]
  by (auto simp: entry_match_def regexec_def split: option.splits)


lemma find_timestamp_match_bounds:
  assumes "find_timestamp_match (Some line) True True = Inr (so, eo)"
  shows "so \<le> eo \<and> eo \<le> length line"
proof -
  from assms have "find_loop timestamp_formats line None = Some (so, eo)"
    by (simp add: find_timestamp_match_def split: option.splits)
  then have "leftmost_in timestamp_formats line (so, eo)"
    by (simp add: find_loop_leftmost)
  then obtain f where "entry_match f line = Some (so, eo)"
    unfolding leftmost_in_def by blast
  then show ?thesis by (rule entry_match_bounds)
qed

lemma splice_buffer:
  assumes "so \<le> eo" and "eo \<le> length l"
    and "CHR 0x00 \<notin> set l" and "CHR 0x00 \<notin> set nt"
    and "so + length nt + length (drop eo l) < n"
  shows "buf_string
           (memcpy ((memcpy ((memcpy out 0 (take so l))(so := CHR 0x00)) so nt)
                      (so + length nt := CHR 0x00))
              (so + length nt) (drop eo l @ [CHR 0x00])) n
         = take so l @ nt @ drop eo l"
proof (rule buf_string_eq)
  let ?o5 = "memcpy ((memcpy ((memcpy out 0 (take so l))(so := CHR 0x00)) so nt)
                      (so + length nt := CHR 0x00))
              (so + length nt) (drop eo l @ [CHR 0x00])"
  let ?bs = "take so l @ nt @ drop eo l"
  have sl: "so \<le> length l" using assms(1,2) by simp
  have ls: "length (take so l) = so" using sl by simp
  have len: "length ?bs = so + length nt + (length l - eo)" using ls by simp
  show "\<forall>i < length ?bs. ?o5 i = ?bs ! i"
  proof (intro allI impI)
    fix i assume i: "i < length ?bs"
    consider (a) "i < so" | (b) "so \<le> i" "i < so + length nt"
      | (c) "so + length nt \<le> i" "i < so + length nt + (length l - eo)"
      using i len by linarith
    then show "?o5 i = ?bs ! i"
    proof cases
      case a
      then show ?thesis using sl by (simp add: memcpy_def nth_append)
    next
      case b
      then have "i - so < length nt" by simp
      with b show ?thesis using sl by (simp add: memcpy_def nth_append)
    next
      case c
      then have "i - (so + length nt) < length l - eo" "\<not> i < so" "\<not> i - so < length nt"
        "i - so - length nt = i - (so + length nt)"
        by simp_all
      with c show ?thesis using sl by (simp add: memcpy_def nth_append)
    qed
  qed
  show "?o5 (length ?bs) = CHR 0x00"
    using sl by (simp add: memcpy_def nth_append)
  show "CHR 0x00 \<notin> set ?bs"
    using assms(3,4) by (auto dest: in_set_takeD in_set_dropD)
  show "length ?bs < n" using assms(5) len by simp
qed

lemma splice_beyond:
  assumes "so + length nt + length (drop eo l) < n" and "so \<le> length l" and "n \<le> i"
  shows "memcpy ((memcpy ((memcpy out 0 (take so l))(so := CHR 0x00)) so nt)
                      (so + length nt := CHR 0x00))
              (so + length nt) (drop eo l @ [CHR 0x00]) i = out i"
  using assms by (simp add: memcpy_def)

lemma copy_buffer:
  assumes "CHR 0x00 \<notin> set l" and "length l < n"
  shows "buf_string (memcpy out 0 (l @ [CHR 0x00])) n = l"
proof (rule buf_string_eq)
  show "\<forall>i < length l. memcpy out 0 (l @ [CHR 0x00]) i = l ! i"
    by (simp add: memcpy_def nth_append)
  show "memcpy out 0 (l @ [CHR 0x00]) (length l) = CHR 0x00"
    by (simp add: memcpy_def nth_append)
  show "CHR 0x00 \<notin> set l" by (rule assms(1))
  show "length l < n" by (rule assms(2))
qed

text \<open>
  C6. For a line and a replacement text (C strings), with a destination of \<open>n\<close>
  bytes: when \<open>find_timestamp_match\<close> finds the span \<open>[so, eo)\<close> and the composed
  text fits, the destination holds the line up to \<open>so\<close>, the replacement, and the
  line from \<open>eo\<close> on, byte for byte; when no span is found and the line fits, the
  destination holds the line unchanged; in both cases nothing is written at or beyond
  \<open>n\<close>. When the text to write, with its terminator, does not fit \<open>n\<close> bytes, the
  result is the buffer-overflow code and the destination is untouched.
\<close>

theorem replace_timestamp_in_line_splices:
  assumes "CHR 0x00 \<notin> set line" and "CHR 0x00 \<notin> set nt"
  shows "(find_timestamp_match (Some line) True True = Inr (so, eo) \<longrightarrow>
            (if so + length nt + (length line - eo) < n
             then \<exists>out'. replace_timestamp_in_line (Some out) n (Some line) (Some nt)
                          = (TS_SUCCESS, Some out')
                        \<and> buf_string out' n = take so line @ nt @ drop eo line
                        \<and> (\<forall>i. n \<le> i \<longrightarrow> out' i = out i)
             else replace_timestamp_in_line (Some out) n (Some line) (Some nt)
                    = (TS_ERROR_BUFFER_OVERFLOW, Some out)))
         \<and> ((\<forall>span. find_timestamp_match (Some line) True True \<noteq> Inr span) \<longrightarrow>
            (if length line < n
             then \<exists>out'. replace_timestamp_in_line (Some out) n (Some line) (Some nt)
                          = (TS_SUCCESS, Some out')
                        \<and> buf_string out' n = line
                        \<and> (\<forall>i. n \<le> i \<longrightarrow> out' i = out i)
             else replace_timestamp_in_line (Some out) n (Some line) (Some nt)
                    = (TS_ERROR_BUFFER_OVERFLOW, Some out)))"
proof (intro conjI impI)
  assume f: "find_timestamp_match (Some line) True True = Inr (so, eo)"
  from find_timestamp_match_bounds [OF f] have b: "so \<le> eo" "eo \<le> length line" by simp_all
  show "if so + length nt + (length line - eo) < n
             then \<exists>out'. replace_timestamp_in_line (Some out) n (Some line) (Some nt)
                          = (TS_SUCCESS, Some out')
                        \<and> buf_string out' n = take so line @ nt @ drop eo line
                        \<and> (\<forall>i. n \<le> i \<longrightarrow> out' i = out i)
             else replace_timestamp_in_line (Some out) n (Some line) (Some nt)
                    = (TS_ERROR_BUFFER_OVERFLOW, Some out)"
  proof (cases "so + length nt + (length line - eo) < n")
    case True
    then have fit: "so + length nt + length (drop eo line) < n" by simp
    have "replace_timestamp_in_line (Some out) n (Some line) (Some nt)
        = (TS_SUCCESS, Some (memcpy ((memcpy ((memcpy out 0 (take so line))(so := CHR 0x00)) so nt)
                      (so + length nt := CHR 0x00))
              (so + length nt) (drop eo line @ [CHR 0x00])))"
      using f True by (simp add: replace_timestamp_in_line_def Let_def)
    moreover note splice_buffer [OF b assms fit, of out]
    moreover have "\<forall>i. n \<le> i \<longrightarrow>
        memcpy ((memcpy ((memcpy out 0 (take so line))(so := CHR 0x00)) so nt)
                      (so + length nt := CHR 0x00))
              (so + length nt) (drop eo line @ [CHR 0x00]) i = out i"
      using splice_beyond [OF fit] b by simp
    ultimately show ?thesis using True by simp
  next
    case False
    then show ?thesis using f by (simp add: replace_timestamp_in_line_def Let_def)
  qed
next
  assume nf: "\<forall>span. find_timestamp_match (Some line) True True \<noteq> Inr span"
  then obtain e where e: "find_timestamp_match (Some line) True True = Inl e"
    by (cases "find_timestamp_match (Some line) True True") auto
  show "if length line < n
             then \<exists>out'. replace_timestamp_in_line (Some out) n (Some line) (Some nt)
                          = (TS_SUCCESS, Some out')
                        \<and> buf_string out' n = line
                        \<and> (\<forall>i. n \<le> i \<longrightarrow> out' i = out i)
             else replace_timestamp_in_line (Some out) n (Some line) (Some nt)
                    = (TS_ERROR_BUFFER_OVERFLOW, Some out)"
  proof (cases "length line < n")
    case True
    have "replace_timestamp_in_line (Some out) n (Some line) (Some nt)
        = (TS_SUCCESS, Some (memcpy out 0 (line @ [CHR 0x00])))"
      using e True by (simp add: replace_timestamp_in_line_def Let_def)
    moreover note copy_buffer [OF assms(1) True, of out]
    moreover have "\<forall>i. n \<le> i \<longrightarrow> memcpy out 0 (line @ [CHR 0x00]) i = out i"
      using True by (simp add: memcpy_def)
    ultimately show ?thesis using True by simp
  next
    case False
    then show ?thesis using e by (simp add: replace_timestamp_in_line_def Let_def)
  qed
qed


lemma find_nothing_example:
  "find_timestamp_match (Some ''no timestamp here'') True True = Inl TS_ERROR_TIME_PARSE"
  by code_simp

theorem replace_timestamp_in_line_splices_witness:
  "(\<exists>out'. replace_timestamp_in_line (Some demo_buf) 64 (Some ''1755921813 test line'')
              (Some ''NEW'') = (TS_SUCCESS, Some out')
           \<and> buf_string out' 64 = ''NEW test line'' \<and> out' 64 = demo_buf 64)
   \<and> replace_timestamp_in_line (Some demo_buf) 13 (Some ''1755921813 test line'') (Some ''NEW'')
        = (TS_ERROR_BUFFER_OVERFLOW, Some demo_buf)
   \<and> (\<exists>out'. replace_timestamp_in_line (Some demo_buf) 64 (Some ''no timestamp here'')
              (Some ''NEW'') = (TS_SUCCESS, Some out')
           \<and> buf_string out' 64 = ''no timestamp here'')"
proof -
  have z1: "CHR 0x00 \<notin> set ''1755921813 test line''" by simp
  have z2: "CHR 0x00 \<notin> set ''NEW''" by simp
  have z3: "CHR 0x00 \<notin> set ''no timestamp here''" by simp
  have nf: "\<forall>span. find_timestamp_match (Some ''no timestamp here'') True True \<noteq> Inr span"
    by (simp add: find_nothing_example)
  have a: "\<exists>out'. replace_timestamp_in_line (Some demo_buf) 64 (Some ''1755921813 test line'')
              (Some ''NEW'') = (TS_SUCCESS, Some out')
           \<and> buf_string out' 64 = ''NEW test line'' \<and> out' 64 = demo_buf 64"
    using replace_timestamp_in_line_splices [OF z1 z2, of 0 10 64 demo_buf, THEN conjunct1]
      find_example
    by auto
  have b: "replace_timestamp_in_line (Some demo_buf) 13 (Some ''1755921813 test line'') (Some ''NEW'')
        = (TS_ERROR_BUFFER_OVERFLOW, Some demo_buf)"
    using replace_timestamp_in_line_splices [OF z1 z2, of 0 10 13 demo_buf, THEN conjunct1]
      find_example
    by simp
  have c: "\<exists>out'. replace_timestamp_in_line (Some demo_buf) 64 (Some ''no timestamp here'')
              (Some ''NEW'') = (TS_SUCCESS, Some out')
           \<and> buf_string out' 64 = ''no timestamp here''"
    using replace_timestamp_in_line_splices [OF z3 z2, of _ _ 64 demo_buf, THEN conjunct2] nf
    by auto
  from a b c show ?thesis by blast
qed

section \<open>Properties of the time formatter\<close>

lemma printf_text_S:
  "printf_text ''%02d.%06ld'' [ArgInt a, ArgInt b] = printf_int True 2 a @ ''.'' @ printf_int True 6 b"
  by (simp add: printf_text_def isdigit_def digit_val_def byte_def) (simp add: eval_nat_numeral)

lemma printf_text_s:
  "printf_text ''%ld.%06ld'' [ArgInt a, ArgInt b] = printf_int False 0 a @ ''.'' @ printf_int True 6 b"
  by (simp add: printf_text_def isdigit_def digit_val_def byte_def)

lemma printf_text_T:
  "printf_text ''%s.%06ld'' [ArgStr s, ArgInt b] = s @ ''.'' @ printf_int True 6 b"
  by (simp add: printf_text_def isdigit_def digit_val_def byte_def)

lemma printf_text_N:
  "printf_text ''%09ld'' [ArgInt a] = printf_int True 9 a"
  by (simp add: printf_text_def isdigit_def digit_val_def byte_def)

lemma printf_text_ld:
  "printf_text ''%ld'' [ArgInt a] = printf_int False 0 a"
  by (simp add: printf_text_def isdigit_def digit_val_def byte_def)

lemma printf_int_zero_padded: "0 \<le> v \<Longrightarrow> printf_int True w v = zero_padded w (nat v)"
  by (simp add: printf_int_def zero_padded_def Let_def)

lemma printf_int_plain: "printf_int False 0 v = plain_integer v"
  by (simp add: printf_int_def plain_integer_def Let_def)

lemma c_div_nonneg: "0 \<le> a \<Longrightarrow> 0 < b \<Longrightarrow> c_div a b = a div b"
  by (simp add: c_div_def sgn_if)

lemma micro_nat: "0 \<le> a \<Longrightarrow> nat (a div 1000) = nat a div 1000"
  by (simp add: nat_div_distrib)

lemma first_pass_step:
  assumes ok: "length result + length p < MAX_FORMAT_LENGTH \<Longrightarrow>
      first_pass env tm_info ts current result = first_pass env tm_info ts rest (result @ p)"
    and bad: "\<not> length result + length p < MAX_FORMAT_LENGTH \<Longrightarrow>
      first_pass env tm_info ts current result = Inl TS_ERROR_BUFFER_OVERFLOW"
    and sp: "spec_pass1 env tm_info ts current = p @ spec_pass1 env tm_info ts rest"
    and ih: "length result + length p < MAX_FORMAT_LENGTH \<Longrightarrow>
      first_pass env tm_info ts rest (result @ p) =
        (if length (result @ p) + length (spec_pass1 env tm_info ts rest) < MAX_FORMAT_LENGTH
         then Inr ((result @ p) @ spec_pass1 env tm_info ts rest)
         else Inl TS_ERROR_BUFFER_OVERFLOW)"
  shows "first_pass env tm_info ts current result =
       (if length result + length (spec_pass1 env tm_info ts current) < MAX_FORMAT_LENGTH
        then Inr (result @ spec_pass1 env tm_info ts current)
        else Inl TS_ERROR_BUFFER_OVERFLOW)"
proof (cases "length result + length p < MAX_FORMAT_LENGTH")
  case True
  from ok [OF True] ih [OF True] sp show ?thesis by (simp add: add.assoc)
next
  case False
  from bad [OF False] sp False show ?thesis by simp
qed

lemma first_pass_spec:
  assumes "0 \<le> tm_sec tm_info" and "0 \<le> nanoseconds ts"
    and "c_strftime env ''%H:%M:%S'' tm_info \<noteq> []"
    and "length (c_strftime env ''%H:%M:%S'' tm_info) < MAX_TIME_STR_LENGTH"
  shows "length result < MAX_FORMAT_LENGTH \<Longrightarrow>
     first_pass env tm_info ts current result =
       (if length result + length (spec_pass1 env tm_info ts current) < MAX_FORMAT_LENGTH
        then Inr (result @ spec_pass1 env tm_info ts current)
        else Inl TS_ERROR_BUFFER_OVERFLOW)"
  using assms
proof (induction env tm_info ts current result rule: first_pass.induct)
  case (1 env tm_info ts current result)
  note inv = "1.prems"(2,3,4,5)
  note len = "1.prems"(1)
  have us: "c_div (nanoseconds ts) 1000 = nanoseconds ts div 1000" "0 \<le> nanoseconds ts div 1000"
    using inv(2) by (simp_all add: c_div_nonneg)
  have hms: "strftime_n env MAX_TIME_STR_LENGTH ''%H:%M:%S'' tm_info
      = Some (c_strftime env ''%H:%M:%S'' tm_info)"
    using inv(3,4) by (simp add: strftime_n_def Let_def)
  show ?case
  proof (cases "current = []")
    case True
    then show ?thesis
      using len by (simp add: first_pass.simps [of _ _ _ "[]"] spec_pass1.simps [of _ _ _ "[]"])
  next
    case ne: False
    show ?thesis
    proof (cases "take 3 current = ''%.S''")
      case c1: True
      have sp: "spec_pass1 env tm_info ts current =
          (zero_padded 2 (nat (tm_sec tm_info)) @ ''.'' @ zero_padded 6 (nat (nanoseconds ts) div 1000)) @ spec_pass1 env tm_info ts (drop 3 current)"
        using ne c1 by (subst spec_pass1.simps) simp
      have ap: "snprintf_append result MAX_FORMAT_LENGTH ''%02d.%06ld''
                  [ArgInt (tm_sec tm_info), ArgInt (c_div (nanoseconds ts) 1000)]
          = (if length result + length (zero_padded 2 (nat (tm_sec tm_info)) @ ''.'' @ zero_padded 6 (nat (nanoseconds ts) div 1000)) < MAX_FORMAT_LENGTH
             then Inr (result @ (zero_padded 2 (nat (tm_sec tm_info)) @ ''.'' @ zero_padded 6 (nat (nanoseconds ts) div 1000)))
             else Inl TS_ERROR_BUFFER_OVERFLOW)"
        using len inv(1) us
        by (auto simp: snprintf_append_def printf_text_S printf_int_zero_padded printf_int_plain micro_nat Let_def)
      have ok: "first_pass env tm_info ts current result =
          first_pass env tm_info ts (drop 3 current) (result @ (zero_padded 2 (nat (tm_sec tm_info)) @ ''.'' @ zero_padded 6 (nat (nanoseconds ts) div 1000)))"
        if "length result + length (zero_padded 2 (nat (tm_sec tm_info)) @ ''.'' @ zero_padded 6 (nat (nanoseconds ts) div 1000)) < MAX_FORMAT_LENGTH"
        using ne c1 ap that hms by (subst first_pass.simps) simp
      have bad: "first_pass env tm_info ts current result = Inl TS_ERROR_BUFFER_OVERFLOW"
        if "\<not> length result + length (zero_padded 2 (nat (tm_sec tm_info)) @ ''.'' @ zero_padded 6 (nat (nanoseconds ts) div 1000)) < MAX_FORMAT_LENGTH"
        using ne c1 ap that hms by (subst first_pass.simps) simp
      have ih: "first_pass env tm_info ts (drop 3 current) (result @ (zero_padded 2 (nat (tm_sec tm_info)) @ ''.'' @ zero_padded 6 (nat (nanoseconds ts) div 1000))) =
          (if length (result @ (zero_padded 2 (nat (tm_sec tm_info)) @ ''.'' @ zero_padded 6 (nat (nanoseconds ts) div 1000))) + length (spec_pass1 env tm_info ts (drop 3 current)) < MAX_FORMAT_LENGTH
           then Inr ((result @ (zero_padded 2 (nat (tm_sec tm_info)) @ ''.'' @ zero_padded 6 (nat (nanoseconds ts) div 1000))) @ spec_pass1 env tm_info ts (drop 3 current))
           else Inl TS_ERROR_BUFFER_OVERFLOW)"
        if fit: "length result + length (zero_padded 2 (nat (tm_sec tm_info)) @ ''.'' @ zero_padded 6 (nat (nanoseconds ts) div 1000)) < MAX_FORMAT_LENGTH"
      proof -
        from ap fit have a: "snprintf_append result MAX_FORMAT_LENGTH ''%02d.%06ld''
                  [ArgInt (tm_sec tm_info), ArgInt (c_div (nanoseconds ts) 1000)]
            = Inr (result @ (zero_padded 2 (nat (tm_sec tm_info)) @ ''.'' @ zero_padded 6 (nat (nanoseconds ts) div 1000)))" by simp
        have l: "length (result @ (zero_padded 2 (nat (tm_sec tm_info)) @ ''.'' @ zero_padded 6 (nat (nanoseconds ts) div 1000))) < MAX_FORMAT_LENGTH" using fit by simp
        show ?thesis by (rule "1.IH"(1) [OF ne c1 a l inv])
      qed
      show ?thesis by (rule first_pass_step [OF ok bad sp ih])
    next
      case n1: False
      show ?thesis
      proof (cases "take 3 current = ''%.s''")
        case c2: True
        have sp: "spec_pass1 env tm_info ts current =
            (plain_integer (seconds ts) @ ''.'' @ zero_padded 6 (nat (nanoseconds ts) div 1000)) @ spec_pass1 env tm_info ts (drop 3 current)"
          using ne n1 c2 by (subst spec_pass1.simps) simp
        have ap: "snprintf_append result MAX_FORMAT_LENGTH ''%ld.%06ld''
                    [ArgInt (seconds ts), ArgInt (c_div (nanoseconds ts) 1000)]
            = (if length result + length (plain_integer (seconds ts) @ ''.'' @ zero_padded 6 (nat (nanoseconds ts) div 1000)) < MAX_FORMAT_LENGTH
               then Inr (result @ (plain_integer (seconds ts) @ ''.'' @ zero_padded 6 (nat (nanoseconds ts) div 1000)))
               else Inl TS_ERROR_BUFFER_OVERFLOW)"
          using len inv(1) us
          by (auto simp: snprintf_append_def printf_text_s printf_int_zero_padded printf_int_plain micro_nat Let_def)
        have ok: "first_pass env tm_info ts current result =
            first_pass env tm_info ts (drop 3 current) (result @ (plain_integer (seconds ts) @ ''.'' @ zero_padded 6 (nat (nanoseconds ts) div 1000)))"
          if "length result + length (plain_integer (seconds ts) @ ''.'' @ zero_padded 6 (nat (nanoseconds ts) div 1000)) < MAX_FORMAT_LENGTH"
          using ne n1 c2 ap that hms by (subst first_pass.simps) simp
        have bad: "first_pass env tm_info ts current result = Inl TS_ERROR_BUFFER_OVERFLOW"
          if "\<not> length result + length (plain_integer (seconds ts) @ ''.'' @ zero_padded 6 (nat (nanoseconds ts) div 1000)) < MAX_FORMAT_LENGTH"
          using ne n1 c2 ap that hms by (subst first_pass.simps) simp
        have ih: "first_pass env tm_info ts (drop 3 current) (result @ (plain_integer (seconds ts) @ ''.'' @ zero_padded 6 (nat (nanoseconds ts) div 1000))) =
            (if length (result @ (plain_integer (seconds ts) @ ''.'' @ zero_padded 6 (nat (nanoseconds ts) div 1000))) + length (spec_pass1 env tm_info ts (drop 3 current)) < MAX_FORMAT_LENGTH
             then Inr ((result @ (plain_integer (seconds ts) @ ''.'' @ zero_padded 6 (nat (nanoseconds ts) div 1000))) @ spec_pass1 env tm_info ts (drop 3 current))
             else Inl TS_ERROR_BUFFER_OVERFLOW)"
          if fit: "length result + length (plain_integer (seconds ts) @ ''.'' @ zero_padded 6 (nat (nanoseconds ts) div 1000)) < MAX_FORMAT_LENGTH"
        proof -
          from ap fit have a: "snprintf_append result MAX_FORMAT_LENGTH ''%ld.%06ld''
                    [ArgInt (seconds ts), ArgInt (c_div (nanoseconds ts) 1000)]
              = Inr (result @ (plain_integer (seconds ts) @ ''.'' @ zero_padded 6 (nat (nanoseconds ts) div 1000)))" by simp
          have l: "length (result @ (plain_integer (seconds ts) @ ''.'' @ zero_padded 6 (nat (nanoseconds ts) div 1000))) < MAX_FORMAT_LENGTH" using fit by simp
          show ?thesis by (rule "1.IH"(2) [OF ne n1 c2 a l inv])
        qed
        show ?thesis by (rule first_pass_step [OF ok bad sp ih])
      next
        case n2: False
        show ?thesis
        proof (cases "take 3 current = ''%.T''")
          case c3: True
          have sp: "spec_pass1 env tm_info ts current =
              (c_strftime env ''%H:%M:%S'' tm_info @ ''.'' @ zero_padded 6 (nat (nanoseconds ts) div 1000)) @ spec_pass1 env tm_info ts (drop 3 current)"
            using ne n1 n2 c3 by (subst spec_pass1.simps) simp
          have ap: "snprintf_append result MAX_FORMAT_LENGTH ''%s.%06ld''
                      [ArgStr (c_strftime env ''%H:%M:%S'' tm_info), ArgInt (c_div (nanoseconds ts) 1000)]
              = (if length result + length (c_strftime env ''%H:%M:%S'' tm_info @ ''.'' @ zero_padded 6 (nat (nanoseconds ts) div 1000)) < MAX_FORMAT_LENGTH
                 then Inr (result @ (c_strftime env ''%H:%M:%S'' tm_info @ ''.'' @ zero_padded 6 (nat (nanoseconds ts) div 1000)))
                 else Inl TS_ERROR_BUFFER_OVERFLOW)"
            using len inv(1) us
            by (auto simp: snprintf_append_def printf_text_T printf_int_zero_padded printf_int_plain micro_nat Let_def)
          have ok: "first_pass env tm_info ts current result =
              first_pass env tm_info ts (drop 3 current) (result @ (c_strftime env ''%H:%M:%S'' tm_info @ ''.'' @ zero_padded 6 (nat (nanoseconds ts) div 1000)))"
            if "length result + length (c_strftime env ''%H:%M:%S'' tm_info @ ''.'' @ zero_padded 6 (nat (nanoseconds ts) div 1000)) < MAX_FORMAT_LENGTH"
            using ne n1 n2 c3 ap that hms by (subst first_pass.simps) simp
          have bad: "first_pass env tm_info ts current result = Inl TS_ERROR_BUFFER_OVERFLOW"
            if "\<not> length result + length (c_strftime env ''%H:%M:%S'' tm_info @ ''.'' @ zero_padded 6 (nat (nanoseconds ts) div 1000)) < MAX_FORMAT_LENGTH"
            using ne n1 n2 c3 ap that hms by (subst first_pass.simps) simp
          have ih: "first_pass env tm_info ts (drop 3 current) (result @ (c_strftime env ''%H:%M:%S'' tm_info @ ''.'' @ zero_padded 6 (nat (nanoseconds ts) div 1000))) =
              (if length (result @ (c_strftime env ''%H:%M:%S'' tm_info @ ''.'' @ zero_padded 6 (nat (nanoseconds ts) div 1000))) + length (spec_pass1 env tm_info ts (drop 3 current)) < MAX_FORMAT_LENGTH
               then Inr ((result @ (c_strftime env ''%H:%M:%S'' tm_info @ ''.'' @ zero_padded 6 (nat (nanoseconds ts) div 1000))) @ spec_pass1 env tm_info ts (drop 3 current))
               else Inl TS_ERROR_BUFFER_OVERFLOW)"
            if fit: "length result + length (c_strftime env ''%H:%M:%S'' tm_info @ ''.'' @ zero_padded 6 (nat (nanoseconds ts) div 1000)) < MAX_FORMAT_LENGTH"
          proof -
            from ap fit have a: "snprintf_append result MAX_FORMAT_LENGTH ''%s.%06ld''
                      [ArgStr (c_strftime env ''%H:%M:%S'' tm_info), ArgInt (c_div (nanoseconds ts) 1000)]
                = Inr (result @ (c_strftime env ''%H:%M:%S'' tm_info @ ''.'' @ zero_padded 6 (nat (nanoseconds ts) div 1000)))" by simp
            have l: "length (result @ (c_strftime env ''%H:%M:%S'' tm_info @ ''.'' @ zero_padded 6 (nat (nanoseconds ts) div 1000))) < MAX_FORMAT_LENGTH" using fit by simp
            show ?thesis by (rule "1.IH"(3) [OF ne n1 n2 c3 hms a l inv])
          qed
          show ?thesis by (rule first_pass_step [OF ok bad sp ih])
        next
          case n3: False
          show ?thesis
          proof (cases "take 2 current = ''%N''")
            case c4: True
            have sp: "spec_pass1 env tm_info ts current =
                (zero_padded 9 (nat (nanoseconds ts))) @ spec_pass1 env tm_info ts (drop 2 current)"
              using ne n1 n2 n3 c4 by (subst spec_pass1.simps) simp
            have ap: "snprintf_append result MAX_FORMAT_LENGTH ''%09ld'' [ArgInt (nanoseconds ts)]
                = (if length result + length (zero_padded 9 (nat (nanoseconds ts))) < MAX_FORMAT_LENGTH
                   then Inr (result @ (zero_padded 9 (nat (nanoseconds ts))))
                   else Inl TS_ERROR_BUFFER_OVERFLOW)"
              using len inv(1) us
              by (auto simp: snprintf_append_def printf_text_N printf_int_zero_padded printf_int_plain micro_nat Let_def)
            have ok: "first_pass env tm_info ts current result =
                first_pass env tm_info ts (drop 2 current) (result @ (zero_padded 9 (nat (nanoseconds ts))))"
              if "length result + length (zero_padded 9 (nat (nanoseconds ts))) < MAX_FORMAT_LENGTH"
              using ne n1 n2 n3 c4 ap that hms by (subst first_pass.simps) simp
            have bad: "first_pass env tm_info ts current result = Inl TS_ERROR_BUFFER_OVERFLOW"
              if "\<not> length result + length (zero_padded 9 (nat (nanoseconds ts))) < MAX_FORMAT_LENGTH"
              using ne n1 n2 n3 c4 ap that hms by (subst first_pass.simps) simp
            have ih: "first_pass env tm_info ts (drop 2 current) (result @ (zero_padded 9 (nat (nanoseconds ts)))) =
                (if length (result @ (zero_padded 9 (nat (nanoseconds ts)))) + length (spec_pass1 env tm_info ts (drop 2 current)) < MAX_FORMAT_LENGTH
                 then Inr ((result @ (zero_padded 9 (nat (nanoseconds ts)))) @ spec_pass1 env tm_info ts (drop 2 current))
                 else Inl TS_ERROR_BUFFER_OVERFLOW)"
              if fit: "length result + length (zero_padded 9 (nat (nanoseconds ts))) < MAX_FORMAT_LENGTH"
            proof -
              from ap fit have a: "snprintf_append result MAX_FORMAT_LENGTH ''%09ld'' [ArgInt (nanoseconds ts)]
                  = Inr (result @ (zero_padded 9 (nat (nanoseconds ts))))" by simp
              have l: "length (result @ (zero_padded 9 (nat (nanoseconds ts)))) < MAX_FORMAT_LENGTH" using fit by simp
              show ?thesis by (rule "1.IH"(4) [OF ne n1 n2 n3 c4 a l inv])
            qed
            show ?thesis by (rule first_pass_step [OF ok bad sp ih])
          next
            case n4: False
            show ?thesis
            proof (cases "take 2 current = ''%s''")
              case c5: True
              have sp: "spec_pass1 env tm_info ts current =
                  (plain_integer (seconds ts)) @ spec_pass1 env tm_info ts (drop 2 current)"
                using ne n1 n2 n3 n4 c5 by (subst spec_pass1.simps) simp
              have ap: "snprintf_append result MAX_FORMAT_LENGTH ''%ld'' [ArgInt (seconds ts)]
                  = (if length result + length (plain_integer (seconds ts)) < MAX_FORMAT_LENGTH
                     then Inr (result @ (plain_integer (seconds ts)))
                     else Inl TS_ERROR_BUFFER_OVERFLOW)"
                using len inv(1) us
                by (auto simp: snprintf_append_def printf_text_ld printf_int_zero_padded printf_int_plain micro_nat Let_def)
              have ok: "first_pass env tm_info ts current result =
                  first_pass env tm_info ts (drop 2 current) (result @ (plain_integer (seconds ts)))"
                if "length result + length (plain_integer (seconds ts)) < MAX_FORMAT_LENGTH"
                using ne n1 n2 n3 n4 c5 ap that hms by (subst first_pass.simps) simp
              have bad: "first_pass env tm_info ts current result = Inl TS_ERROR_BUFFER_OVERFLOW"
                if "\<not> length result + length (plain_integer (seconds ts)) < MAX_FORMAT_LENGTH"
                using ne n1 n2 n3 n4 c5 ap that hms by (subst first_pass.simps) simp
              have ih: "first_pass env tm_info ts (drop 2 current) (result @ (plain_integer (seconds ts))) =
                  (if length (result @ (plain_integer (seconds ts))) + length (spec_pass1 env tm_info ts (drop 2 current)) < MAX_FORMAT_LENGTH
                   then Inr ((result @ (plain_integer (seconds ts))) @ spec_pass1 env tm_info ts (drop 2 current))
                   else Inl TS_ERROR_BUFFER_OVERFLOW)"
                if fit: "length result + length (plain_integer (seconds ts)) < MAX_FORMAT_LENGTH"
              proof -
                from ap fit have a: "snprintf_append result MAX_FORMAT_LENGTH ''%ld'' [ArgInt (seconds ts)]
                    = Inr (result @ (plain_integer (seconds ts)))" by simp
                have l: "length (result @ (plain_integer (seconds ts))) < MAX_FORMAT_LENGTH" using fit by simp
                show ?thesis by (rule "1.IH"(5) [OF ne n1 n2 n3 n4 c5 a l inv])
              qed
              show ?thesis by (rule first_pass_step [OF ok bad sp ih])
            next
              case n5: False
              have sp: "spec_pass1 env tm_info ts current =
                  ([hd current]) @ spec_pass1 env tm_info ts (tl current)"
                using ne n1 n2 n3 n4 n5 by (subst spec_pass1.simps) simp
              have ap: "strcat_append result MAX_FORMAT_LENGTH [hd current]
                  = (if length result + length ([hd current]) < MAX_FORMAT_LENGTH
                     then Inr (result @ ([hd current]))
                     else Inl TS_ERROR_BUFFER_OVERFLOW)"
                using len by (auto simp: strcat_append_def)
              have ok: "first_pass env tm_info ts current result =
                  first_pass env tm_info ts (tl current) (result @ ([hd current]))"
                if "length result + length ([hd current]) < MAX_FORMAT_LENGTH"
                using ne n1 n2 n3 n4 n5 ap that hms by (subst first_pass.simps) simp
              have bad: "first_pass env tm_info ts current result = Inl TS_ERROR_BUFFER_OVERFLOW"
                if "\<not> length result + length ([hd current]) < MAX_FORMAT_LENGTH"
                using ne n1 n2 n3 n4 n5 ap that hms by (subst first_pass.simps) simp
              have ih: "first_pass env tm_info ts (tl current) (result @ ([hd current])) =
                  (if length (result @ ([hd current])) + length (spec_pass1 env tm_info ts (tl current)) < MAX_FORMAT_LENGTH
                   then Inr ((result @ ([hd current])) @ spec_pass1 env tm_info ts (tl current))
                   else Inl TS_ERROR_BUFFER_OVERFLOW)"
                if fit: "length result + length ([hd current]) < MAX_FORMAT_LENGTH"
              proof -
                from ap fit have a: "strcat_append result MAX_FORMAT_LENGTH [hd current]
                    = Inr (result @ ([hd current]))" by simp
                have l: "length (result @ ([hd current])) < MAX_FORMAT_LENGTH" using fit by simp
                show ?thesis by (rule "1.IH"(6) [OF ne n1 n2 n3 n4 n5 a l inv])
              qed
              show ?thesis by (rule first_pass_step [OF ok bad sp ih])
            qed
          qed
        qed
      qed
    qed

  qed
qed


text \<open>
  C7. For a time whose local calendar fields are \<open>tm_info\<close> (nanoseconds and seconds
  field not negative, the calendar formatter's \<open>HH:MM:SS\<close> not empty and shorter than
  64 bytes), \<open>format_timestamp_with_subsecond\<close> returns the text of the two passes
  as the specification words them: pass 1 replaces \<open>%.S\<close>, \<open>%.s\<close>, \<open>%.T\<close>, \<open>%N\<close>
  and \<open>%s\<close> from left to right and copies every other character; pass 2 runs the
  calendar formatter on that text if and only if it contains a percent sign. It does
  so exactly when the pass-1 text is shorter than 256 bytes, the final text is shorter
  than the destination, and a pass-2 text is neither empty nor 256 bytes or longer;
  otherwise it returns the buffer-overflow code.
\<close>

theorem format_timestamp_with_subsecond_two_pass:
  assumes "c_localtime env (seconds ts) = Some tm_info"
    and "0 \<le> tm_sec tm_info" and "0 \<le> nanoseconds ts"
    and "c_strftime env ''%H:%M:%S'' tm_info \<noteq> []"
    and "length (c_strftime env ''%H:%M:%S'' tm_info) < MAX_TIME_STR_LENGTH"
  shows "format_timestamp_with_subsecond env True n (Some fmt) (Some ts) =
           (if length (spec_pass1 env tm_info ts fmt) < MAX_FORMAT_LENGTH
               \<and> length (spec_format_absolute env tm_info ts fmt) < n
               \<and> (CHR ''%'' \<in> set (spec_pass1 env tm_info ts fmt) \<longrightarrow>
                     spec_format_absolute env tm_info ts fmt \<noteq> []
                     \<and> length (spec_format_absolute env tm_info ts fmt) < MAX_FORMAT_LENGTH)
            then Inr (spec_format_absolute env tm_info ts fmt)
            else Inl TS_ERROR_BUFFER_OVERFLOW)"
proof -
  have fp: "first_pass env tm_info ts fmt [] =
       (if length (spec_pass1 env tm_info ts fmt) < MAX_FORMAT_LENGTH
        then Inr (spec_pass1 env tm_info ts fmt)
        else Inl TS_ERROR_BUFFER_OVERFLOW)"
    using first_pass_spec [OF assms(2-5), of "[]" fmt] by (simp add: MAX_FORMAT_LENGTH_def)
  show ?thesis
    using assms(1)
    by (auto simp: format_timestamp_with_subsecond_def fp spec_format_absolute_def
        strftime_n_def Let_def)
qed

lemma demo_pass1:
  "spec_pass1 demo_libc (tm_zero\<lparr>tm_year := 123, tm_sec := 23\<rparr>) demo_time ''%Y %.S|%N|%s|%.s''
     = ''%Y 23.000005|000005000|83|83.000005''"
  by (simp add: spec_pass1.simps zero_padded_def plain_integer_def dec_nat.simps digit_char_def
      demo_time_def tm_zero_def)
    (simp add: eval_nat_numeral)

theorem format_timestamp_with_subsecond_two_pass_witness:
  "format_timestamp_with_subsecond demo_libc True 64 (Some ''%Y %.S|%N|%s|%.s'') (Some demo_time)
     = Inr ''%Y 23.000005|000005000|83|83.000005''"
proof -
  have a: "c_localtime demo_libc (seconds demo_time) = Some (tm_zero\<lparr>tm_year := 123, tm_sec := 23\<rparr>)"
    by (simp add: demo_libc_def demo_time_def)
  have b: "0 \<le> tm_sec (tm_zero\<lparr>tm_year := 123, tm_sec := 23\<rparr>)" by simp
  have c: "0 \<le> nanoseconds demo_time" by (simp add: demo_time_def)
  have d: "c_strftime demo_libc ''%H:%M:%S'' (tm_zero\<lparr>tm_year := 123, tm_sec := 23\<rparr>) \<noteq> []"
    by (simp add: demo_libc_def)
  have e: "length (c_strftime demo_libc ''%H:%M:%S'' (tm_zero\<lparr>tm_year := 123, tm_sec := 23\<rparr>))
      < MAX_TIME_STR_LENGTH"
    by (simp add: demo_libc_def MAX_TIME_STR_LENGTH_def)
  have f: "spec_format_absolute demo_libc (tm_zero\<lparr>tm_year := 123, tm_sec := 23\<rparr>) demo_time
      ''%Y %.S|%N|%s|%.s'' = ''%Y 23.000005|000005000|83|83.000005''"
    by (simp add: spec_format_absolute_def demo_pass1) (simp add: demo_libc_def)
  show ?thesis
    using format_timestamp_with_subsecond_two_pass [OF a b c d e, of 64 "''%Y %.S|%N|%s|%.s''"]
    by (simp add: f demo_pass1 MAX_FORMAT_LENGTH_def)
qed

section \<open>Round trip through the epoch format\<close>

lemma digit_char_props:
  assumes "d < 10"
  shows "isdigit (digit_char d)" and "digit_val (digit_char d) = d"
    and "\<not> isspace (digit_char d)" and "digit_char d \<noteq> CHR ''+''" and "digit_char d \<noteq> CHR ''-''"
    and "digit_char d \<noteq> CHR ''%''"
proof -
  from assms have "d \<in> {0, 1, 2, 3, 4, 5, 6, 7, 8, 9}" by auto
  then show "isdigit (digit_char d)" and "digit_val (digit_char d) = d"
    and "\<not> isspace (digit_char d)" and "digit_char d \<noteq> CHR ''+''" and "digit_char d \<noteq> CHR ''-''"
    and "digit_char d \<noteq> CHR ''%''"
    by (auto simp: digit_char_def isdigit_def digit_val_def isspace_def byte_def)
qed

lemma dec_nat_last: "dec_nat n = (if n < 10 then [] else dec_nat (n div 10)) @ [digit_char (n mod 10)]"
  by (subst dec_nat.simps) simp

lemma dec_nat_digits: "\<forall>c \<in> set (dec_nat n). isdigit c \<and> c \<noteq> CHR ''%''"
proof (induction n rule: dec_nat.induct)
  case (1 n)
  show ?case
  proof (cases "n < 10")
    case True
    then show ?thesis
      by (subst dec_nat.simps) (simp add: digit_char_props)
  next
    case False
    have "n mod 10 < 10" by simp
    with False "1.IH" show ?thesis
      by (subst dec_nat.simps) (simp add: digit_char_props)
  qed
qed

lemma dec_nat_not_Nil: "dec_nat n \<noteq> []"
  by (subst dec_nat.simps) simp

lemma digits_val_snoc: "digits_val (ds @ [c]) = 10 * digits_val ds + digit_val c"
  by (simp add: digits_val_def)

lemma digits_val_dec_nat: "digits_val (dec_nat n) = n"
proof (induction n rule: dec_nat.induct)
  case (1 n)
  show ?case
  proof (cases "n < 10")
    case True
    then show ?thesis
      by (subst dec_nat.simps) (simp add: digits_val_def digit_char_props)
  next
    case False
    have "n mod 10 < 10" by simp
    with False "1.IH" show ?thesis
      by (subst dec_nat.simps) (simp add: digits_val_snoc digit_char_props)
  qed
qed

lemma dec_nat_length: "0 < k \<Longrightarrow> n < 10 ^ k \<Longrightarrow> length (dec_nat n) \<le> k"
proof (induction n arbitrary: k rule: dec_nat.induct)
  case (1 n)
  show ?case
  proof (cases "n < 10")
    case True
    then show ?thesis using "1.prems"(1) by (subst dec_nat.simps) simp
  next
    case False
    then have k1: "1 < k" using "1.prems" by (cases "k = 1") auto
    then obtain j where j: "k = Suc j" "0 < j" by (cases k) auto
    have "n div 10 < 10 ^ j" using "1.prems"(2) j(1) by (simp add: less_mult_imp_div_less mult.commute)
    from "1.IH" [OF False j(2) this] have "length (dec_nat (n div 10)) \<le> j" .
    then show ?thesis using False j(1) by (subst dec_nat.simps) simp
  qed
qed

lemma takeWhile_all: "\<forall>x \<in> set xs. P x \<Longrightarrow> takeWhile P xs = xs"
  by (induction xs) auto

lemma strtoul10_digits:
  assumes "\<forall>c \<in> set ds. isdigit c" and "ds \<noteq> []" and "digits_val ds < 2 ^ 64"
  shows "strtoul10 ds = (of_nat (digits_val ds), False, length ds)"
proof -
  obtain c cs where d: "ds = c # cs" using assms(2) by (cases ds) auto
  have c: "isdigit c" using assms(1) d by simp
  then have nsp: "\<not> isspace c" and nsg: "c \<noteq> CHR ''+''" "c \<noteq> CHR ''-''"
    by (auto simp: isdigit_def isspace_def byte_def)
  have tw: "takeWhile isspace ds = []" "dropWhile isspace ds = ds" using d nsp by simp_all
  have td: "takeWhile isdigit ds = ds" using assms(1) by (rule takeWhile_all)
  show ?thesis
    unfolding strtoul10_def tw Let_def
    using d nsg assms(2,3) td [unfolded d] by simp
qed

lemma strtoul10_minus_digits:
  assumes "\<forall>c \<in> set ds. isdigit c" and "ds \<noteq> []" and "digits_val ds < 2 ^ 64"
  shows "strtoul10 (CHR ''-'' # ds) = (- of_nat (digits_val ds), False, Suc (length ds))"
proof -
  have nsp: "\<not> isspace CHR ''-''" by (simp add: isspace_def byte_def)
  have tw: "takeWhile isspace (CHR ''-'' # ds) = []"
    "dropWhile isspace (CHR ''-'' # ds) = CHR ''-'' # ds" using nsp by simp_all
  have td: "takeWhile isdigit ds = ds" using assms(1) by (rule takeWhile_all)
  show ?thesis
    unfolding strtoul10_def tw Let_def
    using assms(2,3) by (simp add: td)
qed

lemma sint_word64:
  assumes "- (2 ^ 63) \<le> k" and "k < 2 ^ 63"
  shows "sint (word_of_int k :: 64 word) = k"
  using assms by (simp add: sint_sbintrunc' signed_take_bit_int_eq_self)

lemma word64_nonzero:
  assumes "k \<noteq> 0" and "- (2 ^ 63) \<le> k" and "k < 2 ^ 63"
  shows "(word_of_int k :: 64 word) \<noteq> 0"
proof
  assume "(word_of_int k :: 64 word) = 0"
  then have "(2::int) ^ 64 dvd k" by (simp add: word_of_int_eq_0_iff)
  then have "(2::int) ^ 64 \<le> \<bar>k\<bar>" using assms(1) dvd_imp_le_int [of k "2 ^ 64"] by simp
  with assms(2,3) show False by simp
qed

lemma parse_plain_integer:
  assumes "t \<noteq> 0" and "- (2 ^ 63) \<le> t" and "t < 2 ^ 63"
  shows "parse_unix_timestamp_plain (Some (plain_integer t)) True = Inr t"
proof (cases "t < 0")
  case False
  let ?ds = "dec_nat (nat t)"
  have dv: "digits_val ?ds = nat t" by (rule digits_val_dec_nat)
  have lt: "digits_val ?ds < 2 ^ 64" using assms(3) False dv by simp
  have dg: "\<forall>c \<in> set ?ds. isdigit c" using dec_nat_digits by blast
  have st: "strtoul10 ?ds = (of_nat (nat t), False, length ?ds)"
    using strtoul10_digits [OF dg dec_nat_not_Nil lt] dv by simp
  have w: "(of_nat (nat t) :: 64 word) = word_of_int t" using False by simp
  show ?thesis
    using False st w sint_word64 [OF assms(2,3)] word64_nonzero [OF assms]
    by (simp add: parse_unix_timestamp_plain_def plain_integer_def c_at_def)
next
  case True
  let ?ds = "dec_nat (nat (- t))"
  have dv: "digits_val ?ds = nat (- t)" by (rule digits_val_dec_nat)
  have lt: "digits_val ?ds < 2 ^ 64" using assms(2) True dv by simp
  have dg: "\<forall>c \<in> set ?ds. isdigit c" using dec_nat_digits by blast
  have st: "strtoul10 (CHR ''-'' # ?ds) = (- of_nat (nat (- t)), False, Suc (length ?ds))"
    using strtoul10_minus_digits [OF dg dec_nat_not_Nil lt] dv by simp
  have w: "(- of_nat (nat (- t)) :: 64 word) = word_of_int t" using True by simp
  show ?thesis
    using True st w sint_word64 [OF assms(2,3)] word64_nonzero [OF assms]
    by (simp add: parse_unix_timestamp_plain_def plain_integer_def c_at_def)
qed

lemma plain_integer_length:
  assumes "- (2 ^ 63) \<le> t" and "t < 2 ^ 63"
  shows "length (plain_integer t) \<le> 20"
proof -
  have "nat \<bar>t\<bar> < 10 ^ 19" using assms by simp
  then have "length (dec_nat (nat \<bar>t\<bar>)) \<le> 19" by (intro dec_nat_length) simp_all
  then show ?thesis by (auto simp: plain_integer_def abs_if split: if_splits)
qed

lemma plain_integer_no_percent: "CHR ''%'' \<notin> set (plain_integer t)"
  using dec_nat_digits by (auto simp: plain_integer_def)

lemma first_pass_epoch:
  assumes "length (plain_integer (seconds ts)) < MAX_FORMAT_LENGTH"
  shows "first_pass env tm_info ts ''%s'' [] = Inr (plain_integer (seconds ts))"
proof -
  have "first_pass env tm_info ts ''%s'' [] =
      first_pass env tm_info ts [] (plain_integer (seconds ts))"
    using assms
    by (subst first_pass.simps)
      (simp add: snprintf_append_def printf_text_ld printf_int_plain Let_def)
  then show ?thesis by (simp add: first_pass.simps [of _ _ _ "[]"])
qed

text \<open>
  C8, amended. For every time \<open>t\<close> of the 64-bit \<open>time_t\<close> other than 0, whose local
  time the C library can give, and a destination of more than 20 bytes: formatting
  \<open>t\<close> with the format \<open>"%s"\<close> succeeds, and the plain-epoch parser reads the text back
  as \<open>t\<close>.
\<close>

theorem format_epoch_parse_roundtrip:
  assumes "t \<noteq> 0" and "- (2 ^ 63) \<le> t" and "t < 2 ^ 63"
    and "c_localtime env t = Some tm_info" and "20 < n"
  shows "\<exists>text. format_timestamp_with_subsecond env True n (Some ''%s'')
                  (Some \<lparr>seconds = t, nanoseconds = ns\<rparr>) = Inr text
               \<and> parse_unix_timestamp_plain (Some text) True = Inr t"
proof -
  let ?ts = "\<lparr>seconds = t, nanoseconds = ns\<rparr>"
  have l: "length (plain_integer t) \<le> 20" by (rule plain_integer_length [OF assms(2,3)])
  then have "length (plain_integer (seconds ?ts)) < MAX_FORMAT_LENGTH"
    by (simp add: MAX_FORMAT_LENGTH_def)
  from first_pass_epoch [OF this] have fp: "first_pass env tm_info ?ts ''%s'' [] = Inr (plain_integer t)"
    by simp
  have "format_timestamp_with_subsecond env True n (Some ''%s'') (Some ?ts) = Inr (plain_integer t)"
    using assms(4,5) l fp plain_integer_no_percent [of t]
    by (simp add: format_timestamp_with_subsecond_def)
  with parse_plain_integer [OF assms(1-3)] show ?thesis by blast
qed

theorem format_epoch_parse_roundtrip_witness:
  "\<exists>text. format_timestamp_with_subsecond demo_libc True 64 (Some ''%s'')
                  (Some \<lparr>seconds = - 5, nanoseconds = 0\<rparr>) = Inr text
               \<and> parse_unix_timestamp_plain (Some text) True = Inr (- 5)"
proof -
  have a: "c_localtime demo_libc (- 5) = Some (tm_zero\<lparr>tm_year := 123, tm_sec := 55\<rparr>)"
    by (simp add: demo_libc_def)
  show ?thesis
    by (rule format_epoch_parse_roundtrip [OF _ _ _ a]) simp_all
qed

theorem format_epoch_zero_not_recovered:
  "format_timestamp_with_subsecond demo_libc True 64 (Some ''%s'')
       (Some \<lparr>seconds = 0, nanoseconds = 0\<rparr>) = Inr ''0''
   \<and> parse_unix_timestamp_plain (Some ''0'') True = Inl TS_ERROR_TIME_PARSE"
proof -
  have "first_pass demo_libc (tm_zero\<lparr>tm_year := 123, tm_sec := 0\<rparr>)
      \<lparr>seconds = 0, nanoseconds = 0\<rparr> ''%s'' [] = Inr ''0''"
    using first_pass_epoch [of "\<lparr>seconds = 0, nanoseconds = 0\<rparr>" demo_libc]
    by (simp add: plain_integer_def dec_nat.simps digit_char_def MAX_FORMAT_LENGTH_def)
  then have "format_timestamp_with_subsecond demo_libc True 64 (Some ''%s'')
       (Some \<lparr>seconds = 0, nanoseconds = 0\<rparr>) = Inr ''0''"
    by (simp add: format_timestamp_with_subsecond_def demo_libc_def)
  moreover have "parse_unix_timestamp_plain (Some ''0'') True = Inl TS_ERROR_TIME_PARSE"
    by (simp add: parse_unix_timestamp_plain_def strtoul10_def isspace_def isdigit_def
        digits_val_def digit_val_def byte_def c_at_def)
  ultimately show ?thesis by simp
qed

section \<open>Properties of the delta modes\<close>


lemma printf_text_delta_S:
  "printf_text ''%02ld.%06ld'' [ArgInt a, ArgInt b] = printf_int True 2 a @ ''.'' @ printf_int True 6 b"
  by (simp add: printf_text_def isdigit_def digit_val_def byte_def) (simp add: eval_nat_numeral)

lemma printf_text_delta_T:
  "printf_text ''%02ld:%02ld:%02ld.%06ld'' [ArgInt h, ArgInt m, ArgInt s, ArgInt b] =
     printf_int True 2 h @ '':'' @ printf_int True 2 m @ '':'' @ printf_int True 2 s @ ''.''
       @ printf_int True 6 b"
  by (simp add: printf_text_def isdigit_def digit_val_def byte_def) (simp add: eval_nat_numeral)

lemma printf_int_length:
  assumes "\<bar>v\<bar> \<le> 2 ^ 63" and "w \<le> 20"
  shows "length (printf_int z w v) \<le> 20"
proof -
  have "nat \<bar>v\<bar> < 10 ^ 19" using assms(1) by simp
  then have "length (dec_nat (nat \<bar>v\<bar>)) \<le> 19" by (intro dec_nat_length) simp_all
  then show ?thesis using assms(2) by (auto simp: printf_int_def Let_def)
qed

lemma abs_c_div_le: "\<bar>c_div a b\<bar> \<le> \<bar>a\<bar>"
proof -
  have "\<bar>a\<bar> div \<bar>b\<bar> \<le> \<bar>a\<bar>"
  proof (cases "a = 0")
    case True
    then show ?thesis by simp
  next
    case False
    then have "0 < \<bar>a\<bar>" by simp
    then show ?thesis by (rule int_div_le_self)
  qed
  moreover have "0 \<le> \<bar>a\<bar> div \<bar>b\<bar>" by (simp add: pos_imp_zdiv_nonneg_iff div_int_pos_iff)
  ultimately show ?thesis by (auto simp: c_div_def sgn_if abs_mult)
qed

lemma abs_c_mod_le: "\<bar>c_mod a b\<bar> \<le> \<bar>a\<bar>" if "0 < b"
proof (cases "0 \<le> a")
  case True
  then have "c_mod a b = a mod b" using that
    by (cases "a = 0") (simp_all add: c_mod_def c_div_def sgn_if minus_mult_div_eq_mod)
  then show ?thesis using True that by (simp add: zmod_le_nonneg_dividend)
next
  case False
  then have "c_mod a b = - ((- a) mod b)" using that
    by (simp add: c_mod_def c_div_def sgn_if algebra_simps minus_mult_div_eq_mod [symmetric])
  moreover have "(- a) mod b \<le> - a" "0 \<le> (- a) mod b" using False that
    by (simp_all add: zmod_le_nonneg_dividend)
  ultimately show ?thesis using False by simp
qed

lemma snprintf_fresh:
  "snprintf_append [] MAX_FORMAT_LENGTH fmt args =
     (if length (printf_text fmt args) < 256 then Inr (printf_text fmt args)
      else Inl TS_ERROR_BUFFER_OVERFLOW)"
  by (simp add: snprintf_append_def Let_def MAX_FORMAT_LENGTH_def)

lemma delta_timestamp_tokens:
  assumes "\<bar>ds\<bar> \<le> 2 ^ 63" and "\<bar>dn\<bar> \<le> 2 ^ 63"
  shows "strstr_found fmt ''%.s'' \<Longrightarrow>
           delta_timestamp env fmt ds dn =
             Inr (plain_integer ds @ ''.'' @ printf_int True 6 (c_div dn 1000))"
    and "\<not> strstr_found fmt ''%.s'' \<Longrightarrow> strstr_found fmt ''%.S'' \<Longrightarrow>
           delta_timestamp env fmt ds dn =
             Inr (printf_int True 2 (c_mod ds 60) @ ''.'' @ printf_int True 6 (c_div dn 1000))"
    and "\<not> strstr_found fmt ''%.s'' \<Longrightarrow> \<not> strstr_found fmt ''%.S'' \<Longrightarrow>
         strstr_found fmt ''%.T'' \<Longrightarrow>
           delta_timestamp env fmt ds dn =
             Inr (printf_int True 2 (c_div ds 3600) @ '':''
                  @ printf_int True 2 (c_div (c_mod ds 3600) 60) @ '':''
                  @ printf_int True 2 (c_mod ds 60) @ ''.''
                  @ printf_int True 6 (c_div dn 1000))"
proof -
  have us: "length (printf_int True 6 (c_div dn 1000)) \<le> 20"
    using abs_c_div_le [of dn 1000] assms(2) by (intro printf_int_length) simp_all
  have s0: "length (printf_int False 0 ds) \<le> 20"
    using assms(1) by (intro printf_int_length) simp_all
  have m60: "length (printf_int True 2 (c_mod ds 60)) \<le> 20"
    using abs_c_mod_le [of 60 ds] assms(1) by (intro printf_int_length) simp_all
  have h: "length (printf_int True 2 (c_div ds 3600)) \<le> 20"
    using abs_c_div_le [of ds 3600] assms(1) by (intro printf_int_length) simp_all
  have m: "length (printf_int True 2 (c_div (c_mod ds 3600) 60)) \<le> 20"
    using abs_c_div_le [of "c_mod ds 3600" 60] abs_c_mod_le [of 3600 ds] assms(1)
    by (intro printf_int_length) simp_all
  show "strstr_found fmt ''%.s'' \<Longrightarrow>
           delta_timestamp env fmt ds dn =
             Inr (plain_integer ds @ ''.'' @ printf_int True 6 (c_div dn 1000))"
    using us s0
    by (simp add: delta_timestamp_def snprintf_fresh printf_text_s printf_int_plain)
  show "\<not> strstr_found fmt ''%.s'' \<Longrightarrow> strstr_found fmt ''%.S'' \<Longrightarrow>
           delta_timestamp env fmt ds dn =
             Inr (printf_int True 2 (c_mod ds 60) @ ''.'' @ printf_int True 6 (c_div dn 1000))"
    using us m60
    by (simp add: delta_timestamp_def snprintf_fresh printf_text_delta_S)
  show "\<not> strstr_found fmt ''%.s'' \<Longrightarrow> \<not> strstr_found fmt ''%.S'' \<Longrightarrow>
         strstr_found fmt ''%.T'' \<Longrightarrow>
           delta_timestamp env fmt ds dn =
             Inr (printf_int True 2 (c_div ds 3600) @ '':''
                  @ printf_int True 2 (c_div (c_mod ds 3600) 60) @ '':''
                  @ printf_int True 2 (c_mod ds 60) @ ''.''
                  @ printf_int True 6 (c_div dn 1000))"
    using us m60 h m
    by (simp add: delta_timestamp_def snprintf_fresh printf_text_delta_T
        SECONDS_PER_HOUR_def SECONDS_PER_MINUTE_def Let_def)
qed

text \<open>
  C10. In the incremental and the since-start mode, with \<open>ds\<close> and \<open>dn\<close> the
  difference of the two clock readings in seconds and nanoseconds after the borrow
  (both within the range of \<open>long\<close>): when the format contains \<open>%.s\<close> the line is
  printed after the seconds, a dot and the six-digit microseconds, whatever else the
  format contains; when it contains no \<open>%.s\<close> but \<open>%.S\<close>, after the two-digit
  seconds modulo 60, a dot and the microseconds; when it contains neither but \<open>%.T\<close>,
  after \<open>HH:MM:SS\<close>, a dot and the microseconds. No other character of the format
  reaches the output.
\<close>

theorem delta_modes_token_priority:
  assumes "ds = (if nanoseconds cur - nanoseconds ref < 0
                 then seconds cur - seconds ref - 1 else seconds cur - seconds ref)"
    and "dn = (if nanoseconds cur - nanoseconds ref < 0
               then nanoseconds cur - nanoseconds ref + 1000000000
               else nanoseconds cur - nanoseconds ref)"
    and "\<bar>ds\<bar> \<le> 2 ^ 63" and "\<bar>dn\<bar> \<le> 2 ^ 63"
  shows "incremental_mode_output env fmt cur ref line = since_start_mode_output env fmt cur ref line
    \<and> (strstr_found fmt ''%.s'' \<longrightarrow>
          incremental_mode_output env fmt cur ref line =
            plain_integer ds @ ''.'' @ printf_int True 6 (c_div dn 1000) @ '' '' @ line)
    \<and> (\<not> strstr_found fmt ''%.s'' \<and> strstr_found fmt ''%.S'' \<longrightarrow>
          incremental_mode_output env fmt cur ref line =
            printf_int True 2 (c_mod ds 60) @ ''.'' @ printf_int True 6 (c_div dn 1000)
              @ '' '' @ line)
    \<and> (\<not> strstr_found fmt ''%.s'' \<and> \<not> strstr_found fmt ''%.S'' \<and> strstr_found fmt ''%.T'' \<longrightarrow>
          incremental_mode_output env fmt cur ref line =
            printf_int True 2 (c_div ds 3600) @ '':''
              @ printf_int True 2 (c_div (c_mod ds 3600) 60) @ '':''
              @ printf_int True 2 (c_mod ds 60) @ ''.''
              @ printf_int True 6 (c_div dn 1000) @ '' '' @ line)"
proof -
  have o: "incremental_mode_output env fmt cur ref line =
      (case delta_timestamp env fmt ds dn of Inr timestamp \<Rightarrow> timestamp @ '' '' @ line
       | Inl e \<Rightarrow> line)"
    unfolding assms(1,2)
    by (simp add: incremental_mode_output_def delta_mode_output_def Let_def
        NANOSECONDS_PER_SECOND_def)
  note t = delta_timestamp_tokens [OF assms(3,4), of fmt env]
  have a: "incremental_mode_output env fmt cur ref line = since_start_mode_output env fmt cur ref line"
    by (simp add: incremental_mode_output_def since_start_mode_output_def)
  have b: "strstr_found fmt ''%.s'' \<longrightarrow>
          incremental_mode_output env fmt cur ref line =
            plain_integer ds @ ''.'' @ printf_int True 6 (c_div dn 1000) @ '' '' @ line"
    using o t(1) by simp
  have c: "\<not> strstr_found fmt ''%.s'' \<and> strstr_found fmt ''%.S'' \<longrightarrow>
          incremental_mode_output env fmt cur ref line =
            printf_int True 2 (c_mod ds 60) @ ''.'' @ printf_int True 6 (c_div dn 1000)
              @ '' '' @ line"
    using o t(2) by simp
  have d: "\<not> strstr_found fmt ''%.s'' \<and> \<not> strstr_found fmt ''%.S'' \<and> strstr_found fmt ''%.T'' \<longrightarrow>
          incremental_mode_output env fmt cur ref line =
            printf_int True 2 (c_div ds 3600) @ '':''
              @ printf_int True 2 (c_div (c_mod ds 3600) 60) @ '':''
              @ printf_int True 2 (c_mod ds 60) @ ''.''
              @ printf_int True 6 (c_div dn 1000) @ '' '' @ line"
    using o t(3) by simp
  from a b c d show ?thesis by blast
qed

lemma demo_tokens:
  "strstr_found ''%H:%M:%.S and %.s'' ''%.s''"
  "\<not> strstr_found ''%H:%M:%.S and %.T'' ''%.s''"
  "strstr_found ''%H:%M:%.S and %.T'' ''%.S''"
  by simp_all

theorem delta_modes_token_priority_witness:
  "incremental_mode_output demo_libc ''%H:%M:%.S and %.s''
      \<lparr>seconds = 100, nanoseconds = 5000\<rparr> \<lparr>seconds = 97, nanoseconds = 900000000\<rparr> ''line''
     = ''2.100005 line''
   \<and> since_start_mode_output demo_libc ''%H:%M:%.S and %.T''
      \<lparr>seconds = 100, nanoseconds = 5000\<rparr> \<lparr>seconds = 97, nanoseconds = 900000000\<rparr> ''line''
     = ''02.100005 line''"
proof -
  have d: "(2::int) = (if nanoseconds \<lparr>seconds = 100, nanoseconds = 5000\<rparr>
                - nanoseconds \<lparr>seconds = 97, nanoseconds = 900000000\<rparr> < 0
           then seconds \<lparr>seconds = 100, nanoseconds = 5000\<rparr>
                - seconds \<lparr>seconds = 97, nanoseconds = 900000000\<rparr> - 1
           else seconds \<lparr>seconds = 100, nanoseconds = 5000\<rparr>
                - seconds \<lparr>seconds = 97, nanoseconds = 900000000\<rparr>)"
    by simp
  have n: "(100005000::int) = (if nanoseconds \<lparr>seconds = 100, nanoseconds = 5000\<rparr>
                - nanoseconds \<lparr>seconds = 97, nanoseconds = 900000000\<rparr> < 0
           then nanoseconds \<lparr>seconds = 100, nanoseconds = 5000\<rparr>
                - nanoseconds \<lparr>seconds = 97, nanoseconds = 900000000\<rparr> + 1000000000
           else nanoseconds \<lparr>seconds = 100, nanoseconds = 5000\<rparr>
                - nanoseconds \<lparr>seconds = 97, nanoseconds = 900000000\<rparr>)"
    by simp
  have r: "\<bar>2::int\<bar> \<le> 2 ^ 63" "\<bar>100005000::int\<bar> \<le> 2 ^ 63" by simp_all
  have v: "plain_integer 2 @ ''.'' @ printf_int True 6 (c_div 100005000 1000) = ''2.100005''"
    "printf_int True 2 (c_mod 2 60) @ ''.'' @ printf_int True 6 (c_div 100005000 1000)
       = ''02.100005''"
    by (simp_all add: plain_integer_def printf_int_def c_div_def c_mod_def dec_nat.simps
        digit_char_def Let_def)
  note t1 = delta_modes_token_priority [OF d n r, of demo_libc "''%H:%M:%.S and %.s''" "''line''"]
  note t2 = delta_modes_token_priority [OF d n r, of demo_libc "''%H:%M:%.S and %.T''" "''line''"]
  from t1 [THEN conjunct2, THEN conjunct1] demo_tokens(1) v(1)
  have a: "incremental_mode_output demo_libc ''%H:%M:%.S and %.s''
      \<lparr>seconds = 100, nanoseconds = 5000\<rparr> \<lparr>seconds = 97, nanoseconds = 900000000\<rparr> ''line''
     = ''2.100005 line''"
    by simp
  from t2 [THEN conjunct2, THEN conjunct2, THEN conjunct1] demo_tokens(2,3) v(2)
  have "incremental_mode_output demo_libc ''%H:%M:%.S and %.T''
      \<lparr>seconds = 100, nanoseconds = 5000\<rparr> \<lparr>seconds = 97, nanoseconds = 900000000\<rparr> ''line''
     = ''02.100005 line''"
    by simp
  with t2 [THEN conjunct1]
  have b: "since_start_mode_output demo_libc ''%H:%M:%.S and %.T''
      \<lparr>seconds = 100, nanoseconds = 5000\<rparr> \<lparr>seconds = 97, nanoseconds = 900000000\<rparr> ''line''
     = ''02.100005 line''"
    by simp
  from a b show ?thesis by simp
qed

section \<open>A match that is too long to be parsed\<close>

lemma match_lengths_no_digit_piece:
  assumes "\<forall>c \<in> set s. isdigit c"
    and "\<exists>p \<in> set ps. 0 < fst (snd p) \<and> (\<forall>c. isdigit c \<longrightarrow> \<not> accepts (fst p) c)"
  shows "match_lengths ps s = []"
  using assms
proof (induction ps arbitrary: s)
  case Nil
  then show ?case by simp
next
  case (Cons p ps)
  show ?case
  proof (cases "0 < fst (snd p) \<and> (\<forall>c. isdigit c \<longrightarrow> \<not> accepts (fst p) c)")
    case True
    have "takeWhile (accepts (fst p)) s = []"
      using True Cons.prems(1) by (cases s) auto
    then have "[fst (snd p) ..< Suc (case snd (snd p) of None \<Rightarrow> 0 | Some h \<Rightarrow> min 0 h)] = []"
      using True by (simp split: option.splits)
    then show ?thesis
      using \<open>takeWhile (accepts (fst p)) s = []\<close> by (simp add: Let_def del: upt_Suc)
  next
    case False
    with Cons.prems(2) have ex: "\<exists>q \<in> set ps. 0 < fst (snd q) \<and> (\<forall>c. isdigit c \<longrightarrow> \<not> accepts (fst q) c)"
      by auto
    have "match_lengths ps (drop k s) = []" for k
      using Cons.prems(1) by (intro Cons.IH ex) (auto dest: in_set_dropD)
    then show ?thesis by (simp add: Let_def del: upt_Suc)
  qed
qed

lemma regexec_from_no_match:
  assumes "\<And>k. match_lengths ps (drop k s) = []"
  shows "regexec_from ps i s = None"
  using assms
proof (induction s arbitrary: i)
  case Nil
  from Nil [of 0] show ?case by simp
next
  case (Cons c cs)
  have a: "match_lengths ps (c # cs) = []" using Cons.prems [of 0] by simp
  have "\<And>k. match_lengths ps (drop k cs) = []" using Cons.prems [of "Suc _"] by simp
  from Cons.IH [OF this] a show ?case by simp
qed

lemma regexec_digits_no_match:
  assumes "\<forall>c \<in> set s. isdigit c"
    and "\<exists>p \<in> set ps. 0 < fst (snd p) \<and> (\<forall>c. isdigit c \<longrightarrow> \<not> accepts (fst p) c)"
  shows "regexec ps s = None"
  unfolding regexec_def
proof (rule regexec_from_no_match)
  fix k
  show "match_lengths ps (drop k s) = []"
    using assms(1) by (intro match_lengths_no_digit_piece assms(2)) (auto dest: in_set_dropD)
qed

lemma regexec_from_match:
  "match_lengths ps s = l # ls \<Longrightarrow> regexec_from ps i s = Some (i, i + fold max ls l)"
  by (cases s) simp_all

lemma regexec_digit_run:
  assumes "\<forall>c \<in> set s. isdigit c" and "lo \<le> length s"
  shows "regexec [(Digit, lo, None)] s = Some (0, length s)"
proof -
  have tw: "takeWhile (accepts Digit) s = s" using assms(1) by (induction s) auto
  have ml: "match_lengths [(Digit, lo, None)] s = [lo ..< Suc (length s)]"
    by (simp add: Let_def tw map_idI del: upt_Suc)
  have up: "[lo ..< Suc (length s)] = lo # [Suc lo ..< Suc (length s)]"
    using assms(2) by (simp add: upt_conv_Cons del: upt_Suc)
  have "fold max [Suc lo ..< Suc (length s)] lo = Max (set (lo # [Suc lo ..< Suc (length s)]))"
    by (rule Max.set_eq_fold [symmetric])
  also have "set (lo # [Suc lo ..< Suc (length s)]) = {lo .. length s}"
    using assms(2) by auto
  also have "Max {lo .. length s} = length s" using assms(2) by (intro Max_eqI) auto
  finally have fm: "fold max [Suc lo ..< Suc (length s)] lo = length s" .
  have "match_lengths [(Digit, lo, None)] s = lo # [Suc lo ..< Suc (length s)]"
    using ml up by simp
  from regexec_from_match [OF this, of 0] show ?thesis
    unfolding regexec_def by (simp add: fm del: upt_Suc)
qed


lemma regexec_digits_literal:
  assumes "(Lit d, 1, Some 1) \<in> set ps" and "\<not> isdigit d" and "\<forall>c \<in> set s. isdigit c"
  shows "regexec ps s = None"
proof (rule regexec_digits_no_match [OF assms(3)])
  have "0 < fst (snd (Lit d, 1::nat, Some (1::nat))) \<and>
      (\<forall>c. isdigit c \<longrightarrow> \<not> accepts (fst (Lit d, 1::nat, Some (1::nat))) c)"
    using assms(2) by auto
  with assms(1) show "\<exists>p \<in> set ps. 0 < fst (snd p) \<and> (\<forall>c. isdigit c \<longrightarrow> \<not> accepts (fst p) c)"
    by blast
qed

lemma long_digits_props:
  "\<forall>c \<in> set long_digits. isdigit c" "length long_digits = 128"
  by (auto simp: long_digits_def isdigit_def byte_def)

lemma not_digit_chars:
  "\<not> isdigit CHR '' ''" "\<not> isdigit CHR ''-''" "\<not> isdigit CHR ''.''"
  by (simp_all add: isdigit_def byte_def)

lemma long_digits_matches:
  "map (\<lambda>f. entry_match f long_digits) timestamp_formats =
     [None, None, None, None, None, None, None, Some (0, 128)]"
proof -
  have "map (\<lambda>f. entry_match f long_digits) timestamp_formats =
      map (\<lambda>r. case r of None \<Rightarrow> None | Some re \<Rightarrow> regexec re long_digits)
        (map (\<lambda>f. regcomp_ere (pattern f)) timestamp_formats)"
    by (simp add: entry_match_def)
  also have "\<dots> = [None, None, None, None, None, None, None, Some (0, 128)]"
    unfolding regcomp_table
    using long_digits_props
    by (simp add: regexec_digits_literal [where d = "CHR '' ''"]
        regexec_digits_literal [where d = "CHR ''-''"]
        regexec_digits_literal [where d = "CHR ''.''"]
        not_digit_chars regexec_digit_run)
  finally show ?thesis .
qed

lemma digits_val_leading_zeros: "digits_val (replicate n CHR ''0'' @ ds) = digits_val ds"
proof -
  have "foldl (\<lambda>acc c. 10 * acc + digit_val c) 0 (replicate n CHR ''0'') = 0"
    by (induction n) (simp_all add: digit_val_def)
  then show ?thesis by (simp add: digits_val_def)
qed


lemma long_digits_plain:
  "parse_unix_timestamp_plain (Some long_digits) True = Inr 1755921813"
proof -
  have dv: "digits_val long_digits = 1755921813"
    unfolding long_digits_def digits_val_leading_zeros
    by (simp add: digits_val_def digit_val_def byte_def)
  have ne: "long_digits \<noteq> []" using long_digits_props(2) by auto
  have "strtoul10 long_digits = (of_nat (digits_val long_digits), False, length long_digits)"
    using dv by (intro strtoul10_digits long_digits_props(1) ne) simp
  then show ?thesis
    by (simp add: parse_unix_timestamp_plain_def dv c_at_def)
qed

text \<open>
  On a run of 128 digits the plain-epoch entry matches all of it, and the plain-epoch
  parser reads that text as 1755921813; \<open>parse_timestamp_in_line\<close> passes the match
  over because of its length and fails.
\<close>

theorem long_match_not_parsed:
  "entry_match (timestamp_formats ! 7) long_digits = Some (0, 128)
   \<and> parse_match demo_libc (timestamp_formats ! 7) (take (128 - 0) (drop 0 long_digits))
       = Inr 1755921813
   \<and> parse_timestamp_in_line demo_libc (Some long_digits) True = Inl TS_ERROR_TIME_PARSE"
proof -
  have n: "length timestamp_formats = 8" by (simp add: timestamp_formats_def)
  have a: "entry_match (timestamp_formats ! 7) long_digits = Some (0, 128)"
    using arg_cong [OF long_digits_matches, of "\<lambda>xs. xs ! 7"] n by simp
  have "parse_match demo_libc (timestamp_formats ! 7) long_digits
      = parse_unix_timestamp_plain (Some long_digits) True"
    by (simp add: parse_match_def timestamp_formats_def)
  then have b: "parse_match demo_libc (timestamp_formats ! 7) (take (128 - 0) (drop 0 long_digits))
       = Inr 1755921813"
    using long_digits_plain long_digits_props(2) by simp
  have "\<forall>f \<in> set timestamp_formats. entry_attempt demo_libc f long_digits = None"
  proof
    fix f assume "f \<in> set timestamp_formats"
    then have "entry_match f long_digits \<in> set (map (\<lambda>f. entry_match f long_digits) timestamp_formats)"
      by simp
    then have "entry_match f long_digits = None \<or> entry_match f long_digits = Some (0, 128)"
      unfolding long_digits_matches by auto
    then show "entry_attempt demo_libc f long_digits = None"
      by (auto simp: entry_attempt_def MAX_TIMESTAMP_LENGTH_def)
  qed
  then have c: "parse_timestamp_in_line demo_libc (Some long_digits) True = Inl TS_ERROR_TIME_PARSE"
    by (simp add: parse_timestamp_in_line_def parse_loop_Inl)
  from a b c show ?thesis by blast
qed

end
